theory Spec2Isabelle
  imports Complex_Main
begin

section \<open>Python values and exceptions\<close>

text \<open>
  The exceptions that can leave a constructor of \<^verbatim>\<open>interface.py\<close>.
  \<open>TypeError\<close> and \<open>NotImplementedError\<close> carry the message of the
  \<^verbatim>\<open>raise\<close> statement (or of the builtin \<^verbatim>\<open>len\<close>).
  \<open>AttributeError\<close> is what Python raises when \<^verbatim>\<open>.dual\<close> is read from, or
  \<^verbatim>\<open>.gradient\<close> is set on, a plain number. \<open>ArgumentError\<close> stands for the
  exception raised inside a user function that is handed an argument of the wrong shape
  (a list where it computes with a number, a number where it subscripts, an index out of
  range). \<open>OutOfFuel\<close> is not a Python exception: it marks that the bounded model of the
  recursive \<^verbatim>\<open>grad()\<close> ran out of steps.
\<close>

datatype error =
    TypeError string
  | NotImplementedError string
  | DomainError
  | ZeroDivisionError
  | AttributeError
  | ArgumentError
  | OutOfFuel

text \<open>A value inside a user function: a plain Python number or a kernel object.\<close>

datatype 'a val = Num real | Obj 'a

text \<open>What a user function receives: one kernel object, or a list of them.\<close>

datatype 'a arg = Single 'a | Many "'a list"

section \<open>The operation set\<close>

text \<open>
  Modelled from the spec: the arithmetic operators and elementary functions live in
  \<^verbatim>\<open>fad.py\<close>, \<^verbatim>\<open>rad.py\<close> and \<^verbatim>\<open>elementary_functions.py\<close>, which are not
  among the sources. Section 4.1 and 4.2 of the specification fix their contract: the
  result's primal is the real function of the inputs' primals, the local partial
  derivatives are the exact ones, and an operation outside its domain (logarithm of a
  non-positive primal, division by zero) fails with \<open>DomainError\<close>. The fragment modelled
  here: negation, a constant natural power, sine, cosine, exponential, natural logarithm,
  and the four binary operators.
\<close>

datatype unop = UNeg | UPow nat | USin | UCos | UExp | ULn

datatype binop = BAdd | BSub | BMul | BDiv

fun un_ok :: "unop \<Rightarrow> real \<Rightarrow> bool" where
  "un_ok ULn a = (0 < a)"
| "un_ok _ a = True"

fun un_val :: "unop \<Rightarrow> real \<Rightarrow> real" where
  "un_val UNeg a = - a"
| "un_val (UPow n) a = a ^ n"
| "un_val USin a = sin a"
| "un_val UCos a = cos a"
| "un_val UExp a = exp a"
| "un_val ULn a = ln a"

fun un_der :: "unop \<Rightarrow> real \<Rightarrow> real" where
  "un_der UNeg a = - 1"
| "un_der (UPow n) a = of_nat n * a ^ (n - 1)"
| "un_der USin a = cos a"
| "un_der UCos a = - sin a"
| "un_der UExp a = exp a"
| "un_der ULn a = 1 / a"

fun bin_ok :: "binop \<Rightarrow> real \<Rightarrow> real \<Rightarrow> bool" where
  "bin_ok BDiv a b = (b \<noteq> 0)"
| "bin_ok _ a b = True"

fun bin_val :: "binop \<Rightarrow> real \<Rightarrow> real \<Rightarrow> real" where
  "bin_val BAdd a b = a + b"
| "bin_val BSub a b = a - b"
| "bin_val BMul a b = a * b"
| "bin_val BDiv a b = a / b"

text \<open>Partial derivative with respect to the left and to the right operand.\<close>

fun bin_d1 :: "binop \<Rightarrow> real \<Rightarrow> real \<Rightarrow> real" where
  "bin_d1 BAdd a b = 1"
| "bin_d1 BSub a b = 1"
| "bin_d1 BMul a b = b"
| "bin_d1 BDiv a b = 1 / b"

fun bin_d2 :: "binop \<Rightarrow> real \<Rightarrow> real \<Rightarrow> real" where
  "bin_d2 BAdd a b = 1"
| "bin_d2 BSub a b = - 1"
| "bin_d2 BMul a b = a"
| "bin_d2 BDiv a b = - a / (b * b)"

text \<open>
  User functions. The source accepts any Python callable; the callables modelled are the
  ones written with the operation set over their argument: \<open>X\<close> is the argument itself
  (\<^verbatim>\<open>x\<close>), \<open>Xi i\<close> is \<^verbatim>\<open>x[i]\<close>, \<open>Const c\<close> a literal.
\<close>

datatype expr = X | Xi nat | Const real | UnOp unop expr | BinOp binop expr expr

text \<open>The two arguments of both constructors, as the caller may pass them.\<close>

datatype f_arg = Callable expr | Functions "expr list"

datatype var_arg = Number real | Sequence "real list"

text \<open>
  An entry of \<^verbatim>\<open>self.jacobian\<close>: a number (appended in the one-variable branches) or
  a list of numbers (appended in the several-variable branches).
\<close>

datatype entry = Val real | Row "real list"

section \<open>Forward mode\<close>

text \<open>
  Modelled from the spec: \<^verbatim>\<open>DualNumber\<close> of \<^verbatim>\<open>fad.py\<close> (not among the sources),
  the DualValue of section 3: a primal and a tangent. The source reads them as
  \<^verbatim>\<open>.real\<close> and \<^verbatim>\<open>.dual\<close> and builds one with \<^verbatim>\<open>DualNumber(real, dual)\<close>.
\<close>

record DualNumber =
  real_dn :: real
  dual_dn :: real

definition DualNumber :: "real \<Rightarrow> real \<Rightarrow> DualNumber" where
  "DualNumber r d = \<lparr>real_dn = r, dual_dn = d\<rparr>"

text \<open>
  Modelled from the spec: the operators of \<^verbatim>\<open>DualNumber\<close> and the elementary
  functions on it (section 4.1). The result's primal is the real function of the operands'
  primals; its tangent is the sum over the operands of the partial derivative at the
  operands' primals times the operand's tangent, a plain constant having tangent 0. Two
  plain numbers combine as Python numbers do.
\<close>

fun primal_of :: "DualNumber val \<Rightarrow> real" where
  "primal_of (Num a) = a"
| "primal_of (Obj d) = real_dn d"

fun tangent_of :: "DualNumber val \<Rightarrow> real" where
  "tangent_of (Num a) = 0"
| "tangent_of (Obj d) = dual_dn d"

fun dn_un :: "unop \<Rightarrow> DualNumber val \<Rightarrow> error + DualNumber val" where
  "dn_un u (Num a) = (if un_ok u a then Inr (Num (un_val u a)) else Inl DomainError)"
| "dn_un u (Obj d) =
     (if un_ok u (real_dn d)
      then Inr (Obj (DualNumber (un_val u (real_dn d)) (un_der u (real_dn d) * dual_dn d)))
      else Inl DomainError)"

fun dn_bin :: "binop \<Rightarrow> DualNumber val \<Rightarrow> DualNumber val \<Rightarrow> error + DualNumber val" where
  "dn_bin b (Num a) (Num c) =
     (if bin_ok b a c then Inr (Num (bin_val b a c)) else Inl ZeroDivisionError)"
| "dn_bin b v w =
     (if bin_ok b (primal_of v) (primal_of w)
      then Inr (Obj (DualNumber (bin_val b (primal_of v) (primal_of w))
                 (bin_d1 b (primal_of v) (primal_of w) * tangent_of v
                  + bin_d2 b (primal_of v) (primal_of w) * tangent_of w)))
      else Inl DomainError)"

text \<open>Calling a user function on forward-mode values; operands left to right.\<close>

fun feval :: "expr \<Rightarrow> DualNumber arg \<Rightarrow> error + DualNumber val" where
  "feval X (Single d) = Inr (Obj d)"
| "feval X (Many ds) = Inl ArgumentError"
| "feval (Xi i) (Single d) = Inl ArgumentError"
| "feval (Xi i) (Many ds) = (if i < length ds then Inr (Obj (ds ! i)) else Inl ArgumentError)"
| "feval (Const c) a = Inr (Num c)"
| "feval (UnOp u e) a =
     (case feval e a of Inl err \<Rightarrow> Inl err | Inr v \<Rightarrow> dn_un u v)"
| "feval (BinOp b e1 e2) a =
     (case feval e1 a of Inl err \<Rightarrow> Inl err
      | Inr v \<Rightarrow> (case feval e2 a of Inl err \<Rightarrow> Inl err | Inr w \<Rightarrow> dn_bin b v w))"

text \<open>
  \<^verbatim>\<open>value.real\<close> is defined on a Python float as well as on a DualNumber;
  \<^verbatim>\<open>value.dual\<close> only on a DualNumber.
\<close>

fun attr_real :: "DualNumber val \<Rightarrow> real" where
  "attr_real (Num a) = a"
| "attr_real (Obj d) = real_dn d"

fun attr_dual :: "DualNumber val \<Rightarrow> error + real" where
  "attr_dual (Num a) = Inl AttributeError"
| "attr_dual (Obj d) = Inr (dual_dn d)"

record AutoDiff =
  ad_f :: "expr list"
  ad_var_list :: "real list"
  ad_len_var_list :: nat
  ad_jacobian :: "entry list"
  ad_primal :: "real list"
  ad_trace :: "DualNumber list"

text \<open>
  The inner loop of \<^verbatim>\<open>AutoDiff._compute\<close> (lines 156 to 164) over the indices still
  to visit: \<^verbatim>\<open>y = [DualNumber(0, 0)]*n; y[i] = x; dp = f(y).dual\<close>.
\<close>

fun tangent_loop :: "expr \<Rightarrow> DualNumber list \<Rightarrow> nat list \<Rightarrow> error + real list" where
  "tangent_loop g tr [] = Inr []"
| "tangent_loop g tr (i # is) =
     (case feval g (Many ((replicate (length tr) (DualNumber 0 0))[i := tr ! i])) of
        Inl err \<Rightarrow> Inl err
      | Inr v \<Rightarrow>
         (case attr_dual v of
            Inl err \<Rightarrow> Inl err
          | Inr dp \<Rightarrow>
             (case tangent_loop g tr is of
                Inl err \<Rightarrow> Inl err
              | Inr tangent \<Rightarrow> Inr (dp # tangent))))"

text \<open>The outer loop of \<^verbatim>\<open>AutoDiff._compute\<close> over the functions still to visit.\<close>

fun ad_compute :: "expr list \<Rightarrow> AutoDiff \<Rightarrow> error + AutoDiff" where
  "ad_compute [] s = Inr s"
| "ad_compute (g # gs) s =
     (if ad_len_var_list s = 1 then
        (case feval g (Single (ad_trace s ! 0)) of
           Inl err \<Rightarrow> Inl err
         | Inr v \<Rightarrow>
            (case attr_dual v of
               Inl err \<Rightarrow> Inl err
             | Inr d \<Rightarrow>
                ad_compute gs (s\<lparr>ad_primal := ad_primal s @ [attr_real v],
                                 ad_jacobian := ad_jacobian s @ [Val d]\<rparr>)))
      else
        (case feval g (Many (ad_trace s)) of
           Inl err \<Rightarrow> Inl err
         | Inr v \<Rightarrow>
            (case tangent_loop g (ad_trace s) [0 ..< ad_len_var_list s] of
               Inl err \<Rightarrow> Inl err
             | Inr tangent \<Rightarrow>
                ad_compute gs (s\<lparr>ad_primal := ad_primal s @ [attr_real v],
                                 ad_jacobian := ad_jacobian s @ [Row tangent]\<rparr>))))"

text \<open>\<^verbatim>\<open>AutoDiff.__init__\<close>: normalise both arguments, seed the trace, compute.\<close>

definition AutoDiff_init :: "f_arg \<Rightarrow> var_arg \<Rightarrow> error + AutoDiff" where
  "AutoDiff_init f var_list =
     (let vs = (case var_list of Sequence xs \<Rightarrow> xs | Number x \<Rightarrow> [x]);
          fs = (case f of Functions gs \<Rightarrow> gs | Callable g \<Rightarrow> [g])
      in ad_compute fs
           \<lparr>ad_f = fs, ad_var_list = vs, ad_len_var_list = length vs,
            ad_jacobian = [], ad_primal = [],
            ad_trace = map (\<lambda>variable. DualNumber variable 1) vs\<rparr>)"

definition ad_get_primal :: "AutoDiff \<Rightarrow> real list \<times> AutoDiff" where
  "ad_get_primal s = (ad_primal s, s)"

definition ad_get_jacobian :: "AutoDiff \<Rightarrow> entry list \<times> AutoDiff" where
  "ad_get_jacobian s = (ad_jacobian s, s)"

section \<open>Reverse mode\<close>

text \<open>
  Modelled from the spec: \<^verbatim>\<open>ReverseMode\<close> of \<^verbatim>\<open>rad.py\<close> (not among the sources),
  the GraphNode of sections 3 and 4.2: a primal fixed at construction, a gradient
  accumulator that starts unset, and an ordered list of edges (local partial derivative,
  consumer node). The source names the last two \<^verbatim>\<open>.gradient\<close> and \<^verbatim>\<open>.child\<close>.

  Python shares nodes by reference and mutates them; the model therefore keeps an explicit
  store, a list of nodes addressed by position. A node is allocated at the end of the
  store, so an address handed out is always in range, and an edge always points to a node
  allocated later than its owner.
\<close>

record ReverseMode =
  real_rm :: real
  child :: "(real \<times> nat) list"
  gradient :: "real option"

type_synonym heap = "ReverseMode list"

text \<open>
  Modelled from the spec: construction from a real number creates a seed node with an
  empty edge list and an unset gradient.
\<close>

definition ReverseMode :: "real \<Rightarrow> heap \<Rightarrow> nat \<times> heap" where
  "ReverseMode r h = (length h, h @ [\<lparr>real_rm = r, child = [], gradient = None\<rparr>])"

text \<open>
  Modelled from the spec: an operation appends the pair (local partial derivative, result
  node) to the edge list of the input node at address \<open>i\<close>.
\<close>

definition add_child :: "nat \<Rightarrow> real \<Rightarrow> nat \<Rightarrow> heap \<Rightarrow> heap" where
  "add_child i w z h = h[i := (h ! i)\<lparr>child := child (h ! i) @ [(w, z)]\<rparr>]"

text \<open>
  Modelled from the spec (backward traversal contract of section 4.2): \<^verbatim>\<open>grad()\<close>
  returns the cached gradient when it is set; otherwise it sums, in the order the edges
  were recorded, local partial times \<^verbatim>\<open>grad()\<close> of the consumer, caches the sum and
  returns it. The recursion follows the edges of a mutable graph, so the model bounds its
  depth by a step count: \<open>None\<close> means the count was too small.
\<close>

fun grad :: "nat \<Rightarrow> nat \<Rightarrow> heap \<Rightarrow> (real \<times> heap) option"
  and sum_children :: "nat \<Rightarrow> (real \<times> nat) list \<Rightarrow> real \<Rightarrow> heap \<Rightarrow> (real \<times> heap) option"
where
  "grad 0 i h = None"
| "grad (Suc k) i h =
     (case gradient (h ! i) of
        Some g \<Rightarrow> Some (g, h)
      | None \<Rightarrow>
         (case sum_children k (child (h ! i)) 0 h of
            None \<Rightarrow> None
          | Some (s, h') \<Rightarrow> Some (s, h'[i := (h' ! i)\<lparr>gradient := Some s\<rparr>])))"
| "sum_children k [] acc h = Some (acc, h)"
| "sum_children k ((w, c) # es) acc h =
     (case grad k c h of
        None \<Rightarrow> None
      | Some (g, h') \<Rightarrow> sum_children k es (acc + w * g) h')"

text \<open>
  Modelled from the spec (construction contract of section 4.2): an operation computes the
  result's primal, creates the result node and appends to each input node's edge list the
  local partial derivative with the new node. A plain constant operand records no edge.
\<close>

fun rm_un :: "unop \<Rightarrow> nat val \<Rightarrow> heap \<Rightarrow> error + (nat val \<times> heap)" where
  "rm_un u (Num a) h = (if un_ok u a then Inr (Num (un_val u a), h) else Inl DomainError)"
| "rm_un u (Obj i) h =
     (let a = real_rm (h ! i) in
      if un_ok u a then
        (let (z, h1) = ReverseMode (un_val u a) h
         in Inr (Obj z, add_child i (un_der u a) z h1))
      else Inl DomainError)"

fun rm_bin :: "binop \<Rightarrow> nat val \<Rightarrow> nat val \<Rightarrow> heap \<Rightarrow> error + (nat val \<times> heap)" where
  "rm_bin b (Num a) (Num c) h =
     (if bin_ok b a c then Inr (Num (bin_val b a c), h) else Inl ZeroDivisionError)"
| "rm_bin b (Obj i) (Num c) h =
     (let a = real_rm (h ! i) in
      if bin_ok b a c then
        (let (z, h1) = ReverseMode (bin_val b a c) h
         in Inr (Obj z, add_child i (bin_d1 b a c) z h1))
      else Inl DomainError)"
| "rm_bin b (Num a) (Obj j) h =
     (let c = real_rm (h ! j) in
      if bin_ok b a c then
        (let (z, h1) = ReverseMode (bin_val b a c) h
         in Inr (Obj z, add_child j (bin_d2 b a c) z h1))
      else Inl DomainError)"
| "rm_bin b (Obj i) (Obj j) h =
     (let a = real_rm (h ! i); c = real_rm (h ! j) in
      if bin_ok b a c then
        (let (z, h1) = ReverseMode (bin_val b a c) h
         in Inr (Obj z, add_child j (bin_d2 b a c) z (add_child i (bin_d1 b a c) z h1)))
      else Inl DomainError)"

text \<open>Calling a user function on reverse-mode nodes; operands left to right.\<close>

fun reval :: "expr \<Rightarrow> nat arg \<Rightarrow> heap \<Rightarrow> error + (nat val \<times> heap)" where
  "reval X (Single x) h = Inr (Obj x, h)"
| "reval X (Many xs) h = Inl ArgumentError"
| "reval (Xi i) (Single x) h = Inl ArgumentError"
| "reval (Xi i) (Many xs) h =
     (if i < length xs then Inr (Obj (xs ! i), h) else Inl ArgumentError)"
| "reval (Const c) a h = Inr (Num c, h)"
| "reval (UnOp u e) a h =
     (case reval e a h of Inl err \<Rightarrow> Inl err | Inr (v, h1) \<Rightarrow> rm_un u v h1)"
| "reval (BinOp b e1 e2) a h =
     (case reval e1 a h of
        Inl err \<Rightarrow> Inl err
      | Inr (v, h1) \<Rightarrow>
         (case reval e2 a h1 of
            Inl err \<Rightarrow> Inl err
          | Inr (w, h2) \<Rightarrow> rm_bin b v w h2))"

text \<open>\<^verbatim>\<open>z.gradient = 1.0\<close>; a plain number has no such attribute to set.\<close>

fun seed_root :: "nat val \<Rightarrow> heap \<Rightarrow> error + heap" where
  "seed_root (Num a) h = Inl AttributeError"
| "seed_root (Obj z) h = Inr (h[z := (h ! z)\<lparr>gradient := Some 1\<rparr>])"

text \<open>
  The instance. \<^verbatim>\<open>self.f\<close> and \<^verbatim>\<open>self.var_list\<close> are stored as passed.
  \<^verbatim>\<open>self.trace\<close> holds the addresses of the seed nodes; the source sets it only when
  there are several variables and reads it only then.
\<close>

record ReverseAD =
  rad_f :: f_arg
  rad_var_list :: var_arg
  rad_jacobian :: "entry list"
  rad_jacobian_single :: real
  rad_len_var_list :: nat
  rad_trace :: "nat list"

text \<open>The builtin \<^verbatim>\<open>len\<close> applied to \<^verbatim>\<open>self.f\<close>.\<close>

fun len_f :: "f_arg \<Rightarrow> error + nat" where
  "len_f (Callable g) = Inl (TypeError ''object of type 'function' has no len()'')"
| "len_f (Functions gs) = Inr (length gs)"

fun functions_of :: "f_arg \<Rightarrow> expr list" where
  "functions_of (Callable g) = []"
| "functions_of (Functions gs) = gs"

text \<open>\<^verbatim>\<open>[trace.grad() for trace in self.trace]\<close>\<close>

fun grad_all :: "nat list \<Rightarrow> heap \<Rightarrow> (real list \<times> heap) option" where
  "grad_all [] h = Some ([], h)"
| "grad_all (t # ts) h =
     (case grad (length h) t h of
        None \<Rightarrow> None
      | Some (g, h1) \<Rightarrow>
         (case grad_all ts h1 of
            None \<Rightarrow> None
          | Some (gs, h2) \<Rightarrow> Some (g # gs, h2)))"

text \<open>\<^verbatim>\<open>for trace in self.trace: trace.child = []; trace.gradient = None\<close>\<close>

fun reset :: "nat list \<Rightarrow> heap \<Rightarrow> heap" where
  "reset [] h = h"
| "reset (t # ts) h = reset ts (h[t := (h ! t)\<lparr>child := [], gradient := None\<rparr>])"

text \<open>
  The pass for one function of one variable, written twice in the source (lines 305 to 308
  and 315 to 318): \<^verbatim>\<open>x = ReverseMode(float(v)); z = f(x); z.gradient = 1.0; x.grad()\<close>.
\<close>

definition pass_single :: "expr \<Rightarrow> real \<Rightarrow> heap \<Rightarrow> error + (real \<times> heap)" where
  "pass_single g v h =
     (let (x, h1) = ReverseMode v h in
      case reval g (Single x) h1 of
        Inl err \<Rightarrow> Inl err
      | Inr (z, h2) \<Rightarrow>
         (case seed_root z h2 of
            Inl err \<Rightarrow> Inl err
          | Inr h3 \<Rightarrow>
             (case grad (length h3) x h3 of
                None \<Rightarrow> Inl OutOfFuel
              | Some (d, h4) \<Rightarrow> Inr (d, h4))))"

text \<open>
  The pass for one function of several variables (lines 322 to 327): the function is
  called on the seed nodes of the trace, the root is seeded, every seed node's gradient is
  read, and the seed nodes are reset.
\<close>

definition pass_many :: "expr \<Rightarrow> nat list \<Rightarrow> heap \<Rightarrow> error + (real list \<times> heap)" where
  "pass_many g trace h =
     (case reval g (Many trace) h of
        Inl err \<Rightarrow> Inl err
      | Inr (z, h1) \<Rightarrow>
         (case seed_root z h1 of
            Inl err \<Rightarrow> Inl err
          | Inr h2 \<Rightarrow>
             (case grad_all trace h2 of
                None \<Rightarrow> Inl OutOfFuel
              | Some (ds, h3) \<Rightarrow> Inr (ds, reset trace h3))))"

text \<open>Lines 314 to 318: one variable, a fresh seed node for every function.\<close>

fun rad_loop_one :: "expr list \<Rightarrow> real \<Rightarrow> ReverseAD \<Rightarrow> heap \<Rightarrow> error + (ReverseAD \<times> heap)" where
  "rad_loop_one [] v s h = Inr (s, h)"
| "rad_loop_one (g # gs) v s h =
     (case pass_single g v h of
        Inl err \<Rightarrow> Inl err
      | Inr (d, h1) \<Rightarrow>
         rad_loop_one gs v (s\<lparr>rad_jacobian := rad_jacobian s @ [Val d]\<rparr>) h1)"

text \<open>Lines 321 to 327: several variables, the seed nodes of the trace reused.\<close>

fun rad_loop_many :: "expr list \<Rightarrow> ReverseAD \<Rightarrow> heap \<Rightarrow> error + (ReverseAD \<times> heap)" where
  "rad_loop_many [] s h = Inr (s, h)"
| "rad_loop_many (g # gs) s h =
     (case pass_many g (rad_trace s) h of
        Inl err \<Rightarrow> Inl err
      | Inr (ds, h1) \<Rightarrow>
         rad_loop_many gs (s\<lparr>rad_jacobian := rad_jacobian s @ [Row ds]\<rparr>) h1)"

text \<open>\<^verbatim>\<open>ReverseAD._compute\<close>\<close>

definition rad_compute :: "ReverseAD \<Rightarrow> heap \<Rightarrow> error + (ReverseAD \<times> heap)" where
  "rad_compute s h =
     (case rad_var_list s of
        Number v \<Rightarrow>
         (case len_f (rad_f s) of
            Inl err \<Rightarrow> Inl err
          | Inr m \<Rightarrow>
             if m = 1 then
               (case pass_single (functions_of (rad_f s) ! 0) v h of
                  Inl err \<Rightarrow> Inl err
                | Inr (d, h1) \<Rightarrow> Inr (s\<lparr>rad_jacobian_single := d\<rparr>, h1))
             else Inl (TypeError
               ''For multiple functions, variable(s) must be input as numpy array''))
      | Sequence vs \<Rightarrow>
         if rad_len_var_list s = 1 then
           (case len_f (rad_f s) of
              Inl err \<Rightarrow> Inl err
            | Inr m \<Rightarrow> rad_loop_one (functions_of (rad_f s)) (vs ! 0) s h)
         else if rad_len_var_list s > 1 then
           (case len_f (rad_f s) of
              Inl err \<Rightarrow> Inl err
            | Inr m \<Rightarrow> rad_loop_many (functions_of (rad_f s)) s h)
         else Inl (TypeError ''Variable list cannot be empty!''))"

text \<open>The loop of \<^verbatim>\<open>ReverseAD.__init__\<close> that creates the seed nodes.\<close>

fun seed_trace :: "real list \<Rightarrow> heap \<Rightarrow> nat list \<times> heap" where
  "seed_trace [] h = ([], h)"
| "seed_trace (v # vs) h =
     (let (x, h1) = ReverseMode v h; (xs, h2) = seed_trace vs h1 in (x # xs, h2))"

text \<open>
  \<^verbatim>\<open>ReverseAD.__init__\<close>, run on the store \<open>h\<close> that earlier code has left behind.
  \<^verbatim>\<open>len(var_list)\<close> raises on a number, which the source catches.
\<close>

definition ReverseAD_init :: "f_arg \<Rightarrow> var_arg \<Rightarrow> heap \<Rightarrow> error + (ReverseAD \<times> heap)" where
  "ReverseAD_init f var_list h =
     (let n = (case var_list of Number v \<Rightarrow> 1 | Sequence vs \<Rightarrow> length vs);
          (trace, h1) = (case var_list of
                           Number v \<Rightarrow> ([], h)
                         | Sequence vs \<Rightarrow> if n > 1 then seed_trace vs h else ([], h))
      in rad_compute
           \<lparr>rad_f = f, rad_var_list = var_list, rad_jacobian = [],
            rad_jacobian_single = 0, rad_len_var_list = n, rad_trace = trace\<rparr> h1)"

definition rad_get_primal :: "ReverseAD \<Rightarrow> error + real list" where
  "rad_get_primal s = Inl (NotImplementedError ''Reverse AutoDiff does not track primal trace.'')"

text \<open>\<^verbatim>\<open>np.array(self.jacobian).flatten().tolist()\<close>\<close>

fun flatten :: "entry list \<Rightarrow> real list" where
  "flatten [] = []"
| "flatten (Val r # es) = r # flatten es"
| "flatten (Row rs # es) = rs @ flatten es"

text \<open>
  \<^verbatim>\<open>ReverseAD.get_jacobian\<close>: the single number, or the flattened list, which it
  also stores back into \<^verbatim>\<open>self.jacobian\<close>.
\<close>

definition rad_get_jacobian :: "ReverseAD \<Rightarrow> entry \<times> ReverseAD" where
  "rad_get_jacobian s =
     (case rad_var_list s of
        Number v \<Rightarrow> (Val (rad_jacobian_single s), s)
      | Sequence vs \<Rightarrow>
         (let temp = flatten (rad_jacobian s)
          in (Row temp, s\<lparr>rad_jacobian := map Val temp\<rparr>)))"

section \<open>Calls as a caller writes them\<close>

text \<open>\<^verbatim>\<open>AutoDiff(f, var_list).get_primal()\<close> and \<^verbatim>\<open>AutoDiff(f, var_list).get_jacobian()\<close>\<close>

definition AutoDiff_primal :: "f_arg \<Rightarrow> var_arg \<Rightarrow> error + real list" where
  "AutoDiff_primal f var_list =
     (case AutoDiff_init f var_list of
        Inl err \<Rightarrow> Inl err
      | Inr s \<Rightarrow> Inr (fst (ad_get_primal s)))"

definition AutoDiff_jacobian :: "f_arg \<Rightarrow> var_arg \<Rightarrow> error + entry list" where
  "AutoDiff_jacobian f var_list =
     (case AutoDiff_init f var_list of
        Inl err \<Rightarrow> Inl err
      | Inr s \<Rightarrow> Inr (fst (ad_get_jacobian s)))"

text \<open>
  \<^verbatim>\<open>ReverseAD(f, var_list).get_primal()\<close> and \<^verbatim>\<open>ReverseAD(f, var_list).get_jacobian()\<close>,
  the constructor run on the store \<open>h\<close>.
\<close>

definition ReverseAD_primal :: "f_arg \<Rightarrow> var_arg \<Rightarrow> heap \<Rightarrow> error + real list" where
  "ReverseAD_primal f var_list h =
     (case ReverseAD_init f var_list h of
        Inl err \<Rightarrow> Inl err
      | Inr (s, h') \<Rightarrow> rad_get_primal s)"

definition ReverseAD_jacobian :: "f_arg \<Rightarrow> var_arg \<Rightarrow> heap \<Rightarrow> error + entry" where
  "ReverseAD_jacobian f var_list h =
     (case ReverseAD_init f var_list h of
        Inl err \<Rightarrow> Inl err
      | Inr (s, h') \<Rightarrow> Inr (fst (rad_get_jacobian s)))"

section \<open>The functions of the test suite and of the scenarios\<close>

text \<open>\<^verbatim>\<open>def func(x): return 4*x + 3\<close>\<close>

definition func :: expr where
  "func = BinOp BAdd (BinOp BMul (Const 4) X) (Const 3)"

text \<open>\<^verbatim>\<open>def square(x): return x*x\<close>\<close>

definition square :: expr where
  "square = BinOp BMul X X"

text \<open>\<^verbatim>\<open>def product(x): return x[0]*x[1]\<close>\<close>

definition product :: expr where
  "product = BinOp BMul (Xi 0) (Xi 1)"

text \<open>\<^verbatim>\<open>def func1(x): return (5*x[0] + 50)/(2*x[1]**2)\<close>\<close>

definition func1 :: expr where
  "func1 = BinOp BDiv (BinOp BAdd (BinOp BMul (Const 5) (Xi 0)) (Const 50))
                      (BinOp BMul (Const 2) (UnOp (UPow 2) (Xi 1)))"

text \<open>\<^verbatim>\<open>def func2(x): return 10 + 2*x[1]\<close>\<close>

definition func2 :: expr where
  "func2 = BinOp BAdd (Const 10) (BinOp BMul (Const 2) (Xi 1))"

text \<open>\<^verbatim>\<open>def reciprocal(x): return 1/x\<close>\<close>

definition reciprocal :: expr where
  "reciprocal = BinOp BDiv (Const 1) X"

text \<open>\<^verbatim>\<open>def quotient(x): return x[0]/x[1]\<close>\<close>

definition quotient :: expr where
  "quotient = BinOp BDiv (Xi 0) (Xi 1)"

section \<open>Stores that differ by unreachable nodes\<close>

text \<open>
  The rest of the definitions serve the proofs. Two stores are compared: \<open>h\<close>, and
  \<open>h'\<close> that holds \<open>off\<close> further nodes which nothing in \<open>h\<close> refers to, placed after
  the first \<open>n\<close> nodes. \<open>rename n off\<close> maps an address of \<open>h\<close> to the address of the same
  node in \<open>h'\<close>.
\<close>

definition rename :: "nat \<Rightarrow> nat \<Rightarrow> nat \<Rightarrow> nat" where
  "rename n off i = (if i < n then i else i + off)"

text \<open>A node with the addresses in its edges renamed.\<close>

definition rename_node :: "nat \<Rightarrow> nat \<Rightarrow> ReverseMode \<Rightarrow> ReverseMode" where
  "rename_node n off nd = nd\<lparr>child := map (apsnd (rename n off)) (child nd)\<rparr>"

text \<open>\<open>h'\<close> holds every node of \<open>h\<close>, renamed, at the renamed address.\<close>

definition sim :: "nat \<Rightarrow> nat \<Rightarrow> heap \<Rightarrow> heap \<Rightarrow> bool" where
  "sim n off h h' \<longleftrightarrow>
     length h' = length h + off \<and> n \<le> length h
     \<and> (\<forall>i<length h. h' ! rename n off i = rename_node n off (h ! i))"

text \<open>Every edge points to a node allocated later than its owner, inside the store.\<close>

definition wf_store :: "heap \<Rightarrow> bool" where
  "wf_store h \<longleftrightarrow> (\<forall>i<length h. \<forall>e\<in>set (child (h ! i)). i < snd e \<and> snd e < length h)"

text \<open>
  Two results of a user function correspond: the same exception, or the renamed value
  and corresponding stores.
\<close>

definition sim_res ::
  "nat \<Rightarrow> nat \<Rightarrow> error + (nat val \<times> heap) \<Rightarrow> error + (nat val \<times> heap) \<Rightarrow> bool" where
  "sim_res n off r r' \<longleftrightarrow>
     (case r of
        Inl e \<Rightarrow> r' = Inl e
      | Inr (v, h1) \<Rightarrow>
         (\<exists>h1'. r' = Inr (map_val (rename n off) v, h1') \<and> sim n off h1 h1'
                \<and> pred_val (\<lambda>i. i < length h1) v))"

text \<open>The second store has the nodes of the first with the same primals and edges.\<close>

definition same_graph :: "heap \<Rightarrow> heap \<Rightarrow> bool" where
  "same_graph h h1 \<longleftrightarrow>
     length h1 = length h \<and> (\<forall>j. child (h1 ! j) = child (h ! j))
     \<and> (\<forall>j. real_rm (h1 ! j) = real_rm (h ! j))"

text \<open>Two results of \<^verbatim>\<open>grad()\<close> correspond: the same gradient and corresponding stores.\<close>

definition sim_opt ::
  "nat \<Rightarrow> nat \<Rightarrow> (real \<times> heap) option \<Rightarrow> (real \<times> heap) option \<Rightarrow> bool" where
  "sim_opt n off r r' \<longleftrightarrow>
     (case r of
        None \<Rightarrow> r' = None
      | Some (g, h1) \<Rightarrow> (\<exists>h1'. r' = Some (g, h1') \<and> sim n off h1 h1'))"

text \<open>The second store keeps the nodes of the first and their primals.\<close>

definition extends :: "heap \<Rightarrow> heap \<Rightarrow> bool" where
  "extends h h1 \<longleftrightarrow> length h \<le> length h1 \<and> (\<forall>j<length h. real_rm (h1 ! j) = real_rm (h ! j))"

text \<open>
  Two results of a pass, the first on a store \<open>h\<close>, correspond: the same exception (never
  the model's own \<open>OutOfFuel\<close>), or the same derivatives and corresponding stores.
\<close>

definition sim_pass ::
  "nat \<Rightarrow> nat \<Rightarrow> heap \<Rightarrow> error + ('a \<times> heap) \<Rightarrow> error + ('a \<times> heap) \<Rightarrow> bool" where
  "sim_pass n off h r r' \<longleftrightarrow>
     (case r of
        Inl e \<Rightarrow> r' = Inl e \<and> e \<noteq> OutOfFuel
      | Inr (d, h1) \<Rightarrow>
         (\<exists>h1'. r' = Inr (d, h1') \<and> sim n off h1 h1' \<and> wf_store h1 \<and> extends h h1))"

text \<open>Two results of a constructor correspond: the same exception, or the same instance
  up to the addresses in its trace.\<close>

definition sim_run ::
  "nat \<Rightarrow> nat \<Rightarrow> error + (ReverseAD \<times> heap) \<Rightarrow> error + (ReverseAD \<times> heap) \<Rightarrow> bool" where
  "sim_run n off r r' \<longleftrightarrow>
     (case r of
        Inl e \<Rightarrow> r' = Inl e \<and> e \<noteq> OutOfFuel
      | Inr (s1, h1) \<Rightarrow>
         (\<exists>h1'. r' = Inr (s1\<lparr>rad_trace := map (rename n off) (rad_trace s1)\<rparr>, h1')
                \<and> sim n off h1 h1' \<and> wf_store h1 \<and> (\<forall>t\<in>set (rad_trace s1). t < length h1)))"

text \<open>
  The argument \<^verbatim>\<open>AutoDiff._compute\<close> hands to a user function at the supplied point
  \<open>vs\<close>: \<^verbatim>\<open>self.trace[0]\<close> for one variable, \<^verbatim>\<open>self.trace\<close> otherwise.
\<close>

definition ad_arg :: "real list \<Rightarrow> DualNumber arg" where
  "ad_arg vs = (if length vs = 1 then Single (DualNumber (vs ! 0) 1)
                else Many (map (\<lambda>variable. DualNumber variable 1) vs))"

text \<open>
  The argument of pass \<open>i\<close> of the inner loop of \<^verbatim>\<open>AutoDiff._compute\<close> (lines 157 to
  160) at the supplied point \<open>vs\<close>: \<^verbatim>\<open>y = [DualNumber(0, 0)]*n; y[i] = self.trace[i]\<close>.
\<close>

definition one_hot :: "real list \<Rightarrow> nat \<Rightarrow> DualNumber arg" where
  "one_hot vs i =
     Many ((replicate (length vs) (DualNumber 0 0))[i := DualNumber (vs ! i) 1])"

text \<open>
  The store right after the seed nodes of the variables \<open>vs\<close> have been created in an
  empty store, and the argument a user function then receives: the single seed node, or
  the list of all of them.
\<close>

definition rad_store :: "real list \<Rightarrow> heap" where
  "rad_store vs = map (\<lambda>v. \<lparr>real_rm = v, child = [], gradient = None\<rparr>) vs"

definition rad_arg :: "real list \<Rightarrow> nat arg" where
  "rad_arg vs = (if length vs = 1 then Single 0 else Many [0 ..< length vs])"

section \<open>Evaluation rules\<close>

lemmas forward_unfold = AutoDiff_primal_def AutoDiff_jacobian_def AutoDiff_init_def
  ad_get_primal_def ad_get_jacobian_def DualNumber_def upt_rec

lemmas reverse_unfold = ReverseAD_primal_def ReverseAD_jacobian_def ReverseAD_init_def
  rad_compute_def pass_single_def pass_many_def rad_get_primal_def rad_get_jacobian_def
  ReverseMode_def add_child_def Let_def

section \<open>Scenarios\<close>

text \<open>
  C1. The claim: entry (j, i) of the forward Jacobian is the partial derivative of
  function j with respect to variable i at the supplied point. The code differs: for
  \<open>x[0]*x[1]\<close> at (1, 2) the primal is 2, the partial derivatives are 2 and 1 (the first
  is the derivative of \<open>t * 2\<close> at 1, the second that of \<open>1 * t\<close> at 2), and
  \<^verbatim>\<open>get_jacobian\<close> returns the row [0, 0], because each pass evaluates the function
  with the other coordinates' primals replaced by 0.
\<close>

theorem C1_forward_jacobian_product:
  "AutoDiff_primal (Callable product) (Sequence [1, 2]) = Inr [2]
   \<and> AutoDiff_jacobian (Callable product) (Sequence [1, 2]) = Inr [Row [0, 0]]
   \<and> ((\<lambda>t::real. t * 2) has_real_derivative 2) (at 1)
   \<and> ((\<lambda>t::real. 1 * t) has_real_derivative 1) (at 2)"
proof -
  have "AutoDiff_primal (Callable product) (Sequence [1, 2]) = Inr [2]"
    by (simp add: forward_unfold product_def)
  moreover have "AutoDiff_jacobian (Callable product) (Sequence [1, 2]) = Inr [Row [0, 0]]"
    by (simp add: forward_unfold product_def)
  moreover have "((\<lambda>t::real. t * 2) has_real_derivative 2) (at 1)"
    by (auto intro!: derivative_eq_intros)
  moreover have "((\<lambda>t::real. 1 * t) has_real_derivative 1) (at 2)"
    by (auto intro!: derivative_eq_intros)
  ultimately show ?thesis by blast
qed

text \<open>
  C2. The claim: the forward derivative equals the reverse derivative at every point.
  The code differs: for \<open>x[0]*x[1]\<close> at (1, 2) forward mode returns the row [0, 0] and
  reverse mode returns [2, 1].
\<close>

theorem C2_forward_reverse_product:
  "AutoDiff_jacobian (Functions [product]) (Sequence [1, 2]) = Inr [Row [0, 0]]
   \<and> ReverseAD_jacobian (Functions [product]) (Sequence [1, 2]) [] = Inr (Row [2, 1])"
proof -
  have "AutoDiff_jacobian (Functions [product]) (Sequence [1, 2]) = Inr [Row [0, 0]]"
    by (simp add: forward_unfold product_def)
  moreover have "ReverseAD_jacobian (Functions [product]) (Sequence [1, 2]) [] = Inr (Row [2, 1])"
    by (simp add: reverse_unfold product_def)
  ultimately show ?thesis by blast
qed

text \<open>
  C3. For \<open>f1(x) = (5*x0 + 50)/(2*x1^2)\<close> and \<open>f2(x) = 10 + 2*x1\<close> at (1, 2),
  \<^verbatim>\<open>ReverseAD.get_jacobian\<close> returns the flattened Jacobian [0.625, -6.875, 0, 2]: the
  partial derivative of f2 with respect to x0, whose seed node has no edge and an unset
  gradient after the pass of f2, is 0 and not an error.
\<close>

theorem C3_reverse_vector_jacobian:
  "ReverseAD_jacobian (Functions [func1, func2]) (Sequence [1, 2]) []
     = Inr (Row [0.625, - 6.875, 0, 2])"
  by (simp add: reverse_unfold func1_def func2_def)

text \<open>
  C6, as the claim states it, fails: the reverse engine has no primal to report, its
  accessor \<^verbatim>\<open>get_primal\<close> raises \<open>NotImplementedError\<close>.
\<close>

theorem C6_reverse_primal_counterexample:
  "ReverseAD_primal (Functions [func]) (Sequence [2]) [] \<noteq> Inr [11]"
  by (simp add: reverse_unfold func_def)

text \<open>
  C6, amended. For \<open>f(x) = 4x + 3\<close> at \<open>x = 2\<close> the forward engine yields primal [11]
  and derivative [4]; the reverse engine yields the derivative 4 (as the list [4] for the
  point [2], as the number 4 for the point 2) and its \<^verbatim>\<open>get_primal\<close> raises
  \<open>NotImplementedError\<close>.
\<close>

theorem C6_scalar_scenario:
  "AutoDiff_primal (Callable func) (Number 2) = Inr [11]
   \<and> AutoDiff_jacobian (Callable func) (Number 2) = Inr [Val 4]
   \<and> AutoDiff_primal (Callable func) (Sequence [2]) = Inr [11]
   \<and> AutoDiff_jacobian (Callable func) (Sequence [2]) = Inr [Val 4]
   \<and> ReverseAD_jacobian (Functions [func]) (Sequence [2]) [] = Inr (Row [4])
   \<and> ReverseAD_jacobian (Functions [func]) (Number 2) [] = Inr (Val 4)
   \<and> ReverseAD_primal (Functions [func]) (Sequence [2]) []
       = Inl (NotImplementedError ''Reverse AutoDiff does not track primal trace.'')"
proof -
  have "AutoDiff_primal (Callable func) (Number 2) = Inr [11]"
    by (simp add: forward_unfold func_def)
  moreover have "AutoDiff_jacobian (Callable func) (Number 2) = Inr [Val 4]"
    by (simp add: forward_unfold func_def)
  moreover have "AutoDiff_primal (Callable func) (Sequence [2]) = Inr [11]"
    by (simp add: forward_unfold func_def)
  moreover have "AutoDiff_jacobian (Callable func) (Sequence [2]) = Inr [Val 4]"
    by (simp add: forward_unfold func_def)
  moreover have "ReverseAD_jacobian (Functions [func]) (Sequence [2]) [] = Inr (Row [4])"
    by (simp add: reverse_unfold func_def)
  moreover have "ReverseAD_jacobian (Functions [func]) (Number 2) [] = Inr (Val 4)"
    by (simp add: reverse_unfold func_def)
  moreover have "ReverseAD_primal (Functions [func]) (Sequence [2]) []
       = Inl (NotImplementedError ''Reverse AutoDiff does not track primal trace.'')"
    by (simp add: reverse_unfold func_def)
  ultimately show ?thesis by blast
qed

text \<open>
  C7. The claim: for m functions of one variable the forward Jacobian has shape (m, 1).
  The code differs: for the two functions \<open>4x + 3\<close> and \<open>x*x\<close> at the point [2],
  \<^verbatim>\<open>get_jacobian\<close> returns the flat list [4, 4] of two numbers, not the two rows
  [[4], [4]].
\<close>

theorem C7_forward_one_variable_shape:
  "AutoDiff_jacobian (Functions [func, square]) (Sequence [2]) = Inr [Val 4, Val 4]
   \<and> AutoDiff_jacobian (Functions [func, square]) (Sequence [2]) \<noteq> Inr [Row [4], Row [4]]"
  by (simp add: forward_unfold func_def square_def)

section \<open>Rejected arguments\<close>

text \<open>
  C9. Constructing \<^verbatim>\<open>ReverseAD\<close> with an empty variable list raises \<open>TypeError\<close> with
  the message 'Variable list cannot be empty!', whatever the functions and the store; no
  instance, hence no Jacobian entry, is produced.
\<close>

theorem C9_reverse_empty_variable_list:
  "ReverseAD_init f (Sequence []) h = Inl (TypeError ''Variable list cannot be empty!'')"
  by (simp add: ReverseAD_init_def rad_compute_def)

text \<open>
  C10. \<^verbatim>\<open>AutoDiff\<close> wraps a single bare callable into a one-element array and treats
  it as the list of that one function. \<^verbatim>\<open>ReverseAD\<close> does not normalise its function
  argument: with a bare callable the constructor always raises \<open>TypeError\<close>, and for every
  variable argument but the empty list it is the one raised by \<^verbatim>\<open>len\<close> of the
  function object in \<^verbatim>\<open>_compute\<close>. So \<^verbatim>\<open>ReverseAD\<close> succeeds only on a sized
  container of callables.
\<close>

theorem C10_reverse_bare_callable:
  "(var_list \<noteq> Sequence [] \<longrightarrow>
      ReverseAD_init (Callable g) var_list h
        = Inl (TypeError ''object of type 'function' has no len()''))
   \<and> (\<exists>msg. ReverseAD_init (Callable g) var_list h = Inl (TypeError msg))
   \<and> AutoDiff_init (Callable g) var_list = AutoDiff_init (Functions [g]) var_list"
proof (cases var_list)
  case (Number v)
  then show ?thesis
    by (simp add: ReverseAD_init_def rad_compute_def AutoDiff_init_def)
next
  case (Sequence vs)
  have "length vs = 1 \<or> 1 < length vs \<or> length vs = 0" by linarith
  then consider "length vs = 1" | "1 < length vs" | "vs = []" by auto
  then show ?thesis
  proof cases
    case 1
    with Sequence show ?thesis
      by (auto simp: ReverseAD_init_def rad_compute_def AutoDiff_init_def)
  next
    case 2
    with Sequence show ?thesis
      by (auto simp: ReverseAD_init_def rad_compute_def AutoDiff_init_def Let_def
               split: prod.splits)
  next
    case 3
    with Sequence show ?thesis
      by (simp add: ReverseAD_init_def rad_compute_def AutoDiff_init_def)
  qed
qed

theorem C10_reverse_bare_callable_witness:
  "Sequence [2] \<noteq> Sequence []
   \<and> ReverseAD_init (Callable func) (Sequence [2]) []
        = Inl (TypeError ''object of type 'function' has no len()'')
   \<and> AutoDiff_jacobian (Callable func) (Sequence [2]) = Inr [Val 4]
   \<and> AutoDiff_jacobian (Functions [func]) (Sequence [2]) = Inr [Val 4]
   \<and> ReverseAD_jacobian (Functions [func]) (Sequence [2]) [] = Inr (Row [4])"
proof -
  have ne: "Sequence [2] \<noteq> Sequence []" by simp
  from C10_reverse_bare_callable[of "Sequence [2]" func "[]"] ne
  have "ReverseAD_init (Callable func) (Sequence [2]) []
        = Inl (TypeError ''object of type 'function' has no len()'')"
    and same: "AutoDiff_init (Callable func) (Sequence [2])
        = AutoDiff_init (Functions [func]) (Sequence [2])"
    by blast+
  moreover have "AutoDiff_jacobian (Functions [func]) (Sequence [2]) = Inr [Val 4]"
    by (simp add: forward_unfold func_def)
  moreover from this same have "AutoDiff_jacobian (Callable func) (Sequence [2]) = Inr [Val 4]"
    by (simp add: AutoDiff_jacobian_def)
  moreover have "ReverseAD_jacobian (Functions [func]) (Sequence [2]) [] = Inr (Row [4])"
    by (simp add: reverse_unfold func_def)
  ultimately show ?thesis using ne by blast
qed

section \<open>Unreachable nodes do not change a result\<close>

lemma rename_inj [simp]: "rename n off i = rename n off j \<longleftrightarrow> i = j"
  by (auto simp: rename_def)

lemma rename_less: "sim n off h h' \<Longrightarrow> i < length h \<Longrightarrow> rename n off i < length h'"
  by (auto simp: rename_def sim_def)

lemma sim_nth: "sim n off h h' \<Longrightarrow> i < length h \<Longrightarrow> h' ! rename n off i = rename_node n off (h ! i)"
  by (simp add: sim_def)

lemma sim_real: "sim n off h h' \<Longrightarrow> i < length h \<Longrightarrow> real_rm (h' ! rename n off i) = real_rm (h ! i)"
  by (simp add: sim_nth rename_node_def)

lemma sim_gradient: "sim n off h h' \<Longrightarrow> i < length h \<Longrightarrow> gradient (h' ! rename n off i) = gradient (h ! i)"
  by (simp add: sim_nth rename_node_def)

lemma sim_child: "sim n off h h' \<Longrightarrow> i < length h \<Longrightarrow>
    child (h' ! rename n off i) = map (apsnd (rename n off)) (child (h ! i))"
  by (simp add: sim_nth rename_node_def)

lemma sim_update:
  assumes "sim n off h h'" "i < length h" "nd' = rename_node n off nd"
  shows "sim n off (h[i := nd]) (h'[rename n off i := nd'])"
  using assms rename_less[OF assms(1,2)]
  by (auto simp: sim_def nth_list_update)

lemma sim_alloc:
  assumes "sim n off h h'"
  shows "sim n off (h @ [\<lparr>real_rm = r, child = [], gradient = None\<rparr>])
                   (h' @ [\<lparr>real_rm = r, child = [], gradient = None\<rparr>])"
    and "rename n off (length h) = length h'"
proof -
  show r: "rename n off (length h) = length h'"
    using assms by (auto simp: sim_def rename_def)
  show "sim n off (h @ [\<lparr>real_rm = r, child = [], gradient = None\<rparr>])
                   (h' @ [\<lparr>real_rm = r, child = [], gradient = None\<rparr>])"
    unfolding sim_def
  proof (intro conjI allI impI)
    fix i assume "i < length (h @ [\<lparr>real_rm = r, child = [], gradient = None\<rparr>])"
    then consider "i < length h" | "i = length h" by force
    then show "(h' @ [\<lparr>real_rm = r, child = [], gradient = None\<rparr>]) ! rename n off i =
         rename_node n off ((h @ [\<lparr>real_rm = r, child = [], gradient = None\<rparr>]) ! i)"
    proof cases
      case 1
      then show ?thesis using assms rename_less[OF assms 1]
        by (simp add: nth_append sim_nth)
    next
      case 2
      then show ?thesis using r by (simp add: rename_node_def)
    qed
  qed (use assms in \<open>auto simp: sim_def\<close>)
qed

lemma sim_add_child:
  assumes "sim n off h h'" "i < length h"
  shows "sim n off (add_child i w z h) (add_child (rename n off i) w (rename n off z) h')"
  unfolding add_child_def
  by (rule sim_update[OF assms]) (simp add: sim_nth[OF assms] rename_node_def)

lemma sim_set_gradient:
  assumes "sim n off h h'" "i < length h"
  shows "sim n off (h[i := (h ! i)\<lparr>gradient := g\<rparr>])
                   (h'[rename n off i := (h' ! rename n off i)\<lparr>gradient := g\<rparr>])"
  by (rule sim_update[OF assms]) (simp add: sim_nth[OF assms] rename_node_def)

lemma rm_un_length: "rm_un u v h = Inr (w, h1) \<Longrightarrow> length h \<le> length h1"
  by (cases v) (auto simp: ReverseMode_def add_child_def Let_def split: if_splits)

lemma rm_bin_length: "rm_bin b v w h = Inr (z, h1) \<Longrightarrow> length h \<le> length h1"
  by (cases v; cases w) (auto simp: ReverseMode_def add_child_def Let_def split: if_splits)

lemma reval_length: "reval e a h = Inr (v, h1) \<Longrightarrow> length h \<le> length h1"
proof (induction e arbitrary: h v h1)
  case X then show ?case by (cases a) auto
next
  case (Xi i) then show ?case by (cases a) (auto split: if_splits)
next
  case (Const c) then show ?case by simp
next
  case (UnOp u e)
  then show ?case
    by (fastforce split: sum.splits dest: rm_un_length)
next
  case (BinOp b e1 e2)
  from BinOp.prems obtain v1 h2 v2 h3 where
    1: "reval e1 a h = Inr (v1, h2)" and 2: "reval e2 a h2 = Inr (v2, h3)"
    and 3: "rm_bin b v1 v2 h3 = Inr (v, h1)"
    by (auto split: sum.splits)
  from BinOp.IH(1)[OF 1] BinOp.IH(2)[OF 2] rm_bin_length[OF 3]
  show ?case by linarith
qed

lemma rm_un_sim:
  assumes "sim n off h h'" "pred_val (\<lambda>i. i < length h) v"
  shows "sim_res n off (rm_un u v h) (rm_un u (map_val (rename n off) v) h')"
proof (cases v)
  case (Num a)
  then show ?thesis using assms by (simp add: sim_res_def)
next
  case (Obj i)
  with assms have i: "i < length h" by simp
  let ?nd = "\<lparr>real_rm = un_val u (real_rm (h ! i)), child = [], gradient = None\<rparr>"
  have s1: "sim n off (h @ [?nd]) (h' @ [?nd])" by (rule sim_alloc(1)[OF assms(1)])
  have r: "rename n off (length h) = length h'" by (rule sim_alloc(2)[OF assms(1)])
  have "sim n off (add_child i (un_der u (real_rm (h ! i))) (length h) (h @ [?nd]))
          (add_child (rename n off i) (un_der u (real_rm (h ! i))) (rename n off (length h)) (h' @ [?nd]))"
    by (rule sim_add_child[OF s1]) (use i in simp)
  then show ?thesis using Obj i r sim_real[OF assms(1) i]
    by (simp add: sim_res_def ReverseMode_def Let_def add_child_def)
qed

lemma rm_bin_sim:
  assumes "sim n off h h'" "pred_val (\<lambda>i. i < length h) v" "pred_val (\<lambda>i. i < length h) w"
  shows "sim_res n off (rm_bin b v w h)
           (rm_bin b (map_val (rename n off) v) (map_val (rename n off) w) h')"
proof -
  have r: "rename n off (length h) = length h'" by (rule sim_alloc(2)[OF assms(1)])
  have s1: "\<And>x. sim n off (h @ [\<lparr>real_rm = x, child = [], gradient = None\<rparr>])
                  (h' @ [\<lparr>real_rm = x, child = [], gradient = None\<rparr>])"
    by (rule sim_alloc(1)[OF assms(1)])
  have one: "\<And>i x d. i < length h \<Longrightarrow>
      sim n off (add_child i d (length h) (h @ [\<lparr>real_rm = x, child = [], gradient = None\<rparr>]))
        (add_child (rename n off i) d (length h') (h' @ [\<lparr>real_rm = x, child = [], gradient = None\<rparr>]))"
    using sim_add_child[OF s1, of _ _ _ "length h"] r by simp
  have two: "\<And>i j x d e. i < length h \<Longrightarrow> j < length h \<Longrightarrow>
      sim n off (add_child j e (length h) (add_child i d (length h) (h @ [\<lparr>real_rm = x, child = [], gradient = None\<rparr>])))
        (add_child (rename n off j) e (length h') (add_child (rename n off i) d (length h') (h' @ [\<lparr>real_rm = x, child = [], gradient = None\<rparr>])))"
    using sim_add_child[OF one, of _ _ _ _ _ "length h"] r by (simp add: add_child_def)
  show ?thesis
  proof (cases v)
    case (Num a)
    note vn = this
    show ?thesis
    proof (cases w)
      case (Num c)
      then show ?thesis using vn assms by (simp add: sim_res_def)
    next
      case (Obj j)
      with assms have j: "j < length h" by simp
      show ?thesis using vn Obj j one[OF j] sim_real[OF assms(1) j] r
        by (simp add: sim_res_def ReverseMode_def Let_def add_child_def)
    qed
  next
    case (Obj i)
    note vo = this
    with assms have i: "i < length h" by simp
    show ?thesis
    proof (cases w)
      case (Num c)
      then show ?thesis using vo i one[OF i] sim_real[OF assms(1) i] r
        by (simp add: sim_res_def ReverseMode_def Let_def add_child_def)
    next
      case (Obj j)
      with assms have j: "j < length h" by simp
      show ?thesis using vo Obj i j two[OF i j] sim_real[OF assms(1) i] sim_real[OF assms(1) j] r
        by (simp add: sim_res_def ReverseMode_def Let_def add_child_def)
    qed
  qed
qed

lemma reval_sim:
  assumes "sim n off h h'" "pred_arg (\<lambda>i. i < length h) a"
  shows "sim_res n off (reval e a h) (reval e (map_arg (rename n off) a) h')"
  using assms
proof (induction e arbitrary: h h')
  case X
  then show ?case by (cases a) (auto simp: sim_res_def)
next
  case (Xi i)
  then show ?case by (cases a) (auto simp: sim_res_def list_all_length)
next
  case (Const c)
  then show ?case by (simp add: sim_res_def)
next
  case (UnOp u e)
  show ?case
  proof (cases "reval e a h")
    case (Inl err)
    with UnOp.IH[OF UnOp.prems] show ?thesis by (simp add: sim_res_def)
  next
    case (Inr p)
    obtain v h1 where p: "p = (v, h1)" by (cases p)
    with Inr UnOp.IH[OF UnOp.prems] obtain h1' where
      1: "reval e (map_arg (rename n off) a) h' = Inr (map_val (rename n off) v, h1')"
      and 2: "sim n off h1 h1'" and 3: "pred_val (\<lambda>i. i < length h1) v"
      by (auto simp: sim_res_def)
    from rm_un_sim[OF 2 3] Inr p 1 show ?thesis by simp
  qed
next
  case (BinOp b e1 e2)
  show ?case
  proof (cases "reval e1 a h")
    case (Inl err)
    with BinOp.IH(1)[OF BinOp.prems] show ?thesis by (simp add: sim_res_def)
  next
    case (Inr p)
    obtain v h1 where p: "p = (v, h1)" by (cases p)
    with Inr BinOp.IH(1)[OF BinOp.prems] obtain h1' where
      1: "reval e1 (map_arg (rename n off) a) h' = Inr (map_val (rename n off) v, h1')"
      and 2: "sim n off h1 h1'" and 3: "pred_val (\<lambda>i. i < length h1) v"
      by (auto simp: sim_res_def)
    from Inr p have len1: "length h \<le> length h1" by (auto dest: reval_length)
    have a1: "pred_arg (\<lambda>i. i < length h1) a"
      using BinOp.prems(2) len1 by (cases a) (auto simp: list_all_iff)
    show ?thesis
    proof (cases "reval e2 a h1")
      case (Inl err)
      with BinOp.IH(2)[OF 2 a1] Inr p 1 show ?thesis by (simp add: sim_res_def)
    next
      case q: (Inr p2)
      obtain w h2 where p2: "p2 = (w, h2)" by (cases p2)
      with q BinOp.IH(2)[OF 2 a1] obtain h2' where
        4: "reval e2 (map_arg (rename n off) a) h1' = Inr (map_val (rename n off) w, h2')"
        and 5: "sim n off h2 h2'" and 6: "pred_val (\<lambda>i. i < length h2) w"
        by (auto simp: sim_res_def)
      from q p2 have len2: "length h1 \<le> length h2" by (auto dest: reval_length)
      have 7: "pred_val (\<lambda>i. i < length h2) v" using 3 len2 by (cases v) auto
      from rm_bin_sim[OF 5 7 6] Inr p 1 q p2 4 show ?thesis by simp
    qed
  qed
qed

lemma set_gradient_child [simp]:
  "child ((h[i := (h ! i)\<lparr>gradient := x\<rparr>]) ! j) = child (h ! j)"
  by (cases "i < length h") (simp_all add: nth_list_update list_update_beyond)

lemma set_gradient_real [simp]:
  "real_rm ((h[i := (h ! i)\<lparr>gradient := x\<rparr>]) ! j) = real_rm (h ! j)"
  by (cases "i < length h") (simp_all add: nth_list_update list_update_beyond)

lemma same_graph_refl [simp]: "same_graph h h"
  by (simp add: same_graph_def)

lemma same_graph_trans: "same_graph h h1 \<Longrightarrow> same_graph h1 h2 \<Longrightarrow> same_graph h h2"
  by (simp add: same_graph_def)

lemma same_graph_set_gradient: "same_graph h (h[i := (h ! i)\<lparr>gradient := x\<rparr>])"
  by (simp add: same_graph_def)

lemma same_graph_wf: "same_graph h h1 \<Longrightarrow> wf_store h \<Longrightarrow> wf_store h1"
  by (simp add: same_graph_def wf_store_def)

lemma grad_same_graph:
  "grad k i h = Some (g, h1) \<Longrightarrow> same_graph h h1"
  "sum_children k es acc h = Some (g, h1) \<Longrightarrow> same_graph h h1"
proof (induction k i h and k es acc h arbitrary: g h1 and g h1 rule: grad_sum_children.induct)
  case (1 i h)
  then show ?case by simp
next
  case (2 k i h)
  show ?case
  proof (cases "gradient (h ! i)")
    case (Some a)
    with 2 show ?thesis by simp
  next
    case None
    with "2.prems" obtain s h' where
      s: "sum_children k (child (h ! i)) 0 h = Some (s, h')"
      and h1: "h1 = h'[i := (h' ! i)\<lparr>gradient := Some s\<rparr>]"
      by (auto split: option.splits)
    from "2.IH"[OF None s] same_graph_set_gradient[of h' i "Some s"] h1
    show ?thesis by (blast intro: same_graph_trans)
  qed
next
  case (3 k acc h)
  then show ?case by simp
next
  case (4 k w c es acc h)
  from "4.prems" obtain d h' where
    d: "grad k c h = Some (d, h')"
    and r: "sum_children k es (acc + w * d) h' = Some (g, h1)"
    by (auto split: option.splits)
  from "4.IH"(1)[OF d] "4.IH"(2)[OF d refl r]
  show ?case by (blast intro: same_graph_trans)
qed

lemma grad_fuel_Suc:
  "grad k i h = Some r \<Longrightarrow> grad (Suc k) i h = Some r"
  "sum_children k es acc h = Some r \<Longrightarrow> sum_children (Suc k) es acc h = Some r"
proof (induction k i h and k es acc h arbitrary: r and r rule: grad_sum_children.induct)
  case (1 i h)
  then show ?case by simp
next
  case (2 k i h)
  show ?case
  proof (cases "gradient (h ! i)")
    case (Some a)
    with "2.prems" show ?thesis by simp
  next
    case None
    with "2.prems" obtain s h' where
      s: "sum_children k (child (h ! i)) 0 h = Some (s, h')"
      and r: "r = (s, h'[i := (h' ! i)\<lparr>gradient := Some s\<rparr>])"
      by (auto split: option.splits)
    from "2.IH"[OF None s] None r show ?thesis by simp
  qed
next
  case (3 k acc h)
  then show ?case by simp
next
  case (4 k w c es acc h)
  from "4.prems" obtain d h' where
    d: "grad k c h = Some (d, h')"
    and r: "sum_children k es (acc + w * d) h' = Some r"
    by (auto split: option.splits)
  from "4.IH"(1)[OF d] "4.IH"(2)[OF d refl r]
  show ?case by simp
qed

lemma grad_fuel_mono: "k \<le> k' \<Longrightarrow> grad k i h = Some r \<Longrightarrow> grad k' i h = Some r"
proof (induction rule: dec_induct)
  case base
  then show ?case .
next
  case (step m)
  then show ?case by (blast intro: grad_fuel_Suc(1))
qed

lemma grad_enough_fuel:
  "wf_store h \<Longrightarrow> i < length h \<Longrightarrow> length h - i \<le> k \<Longrightarrow> \<exists>r. grad k i h = Some r"
  "wf_store h \<Longrightarrow> \<forall>e\<in>set es. snd e < length h \<and> length h - snd e \<le> k
     \<Longrightarrow> \<exists>r. sum_children k es acc h = Some r"
proof (induction k i h and k es acc h rule: grad_sum_children.induct)
  case (1 i h)
  then show ?case by simp
next
  case (2 k i h)
  show ?case
  proof (cases "gradient (h ! i)")
    case (Some a)
    then show ?thesis by simp
  next
    case None
    have "\<forall>e\<in>set (child (h ! i)). snd e < length h \<and> length h - snd e \<le> k"
      using "2.prems" by (fastforce simp: wf_store_def)
    from "2.IH"[OF None "2.prems"(1) this] None show ?thesis by auto
  qed
next
  case (3 k acc h)
  then show ?case by simp
next
  case (4 k w c es acc h)
  from "4.prems" have c: "c < length h" "length h - c \<le> k" by auto
  from "4.IH"(1)[OF "4.prems"(1) c] obtain d h' where d: "grad k c h = Some (d, h')"
    by auto
  from grad_same_graph(1)[OF d] have sg: "same_graph h h'" .
  then have wf': "wf_store h'" using "4.prems"(1) by (rule same_graph_wf)
  have "\<forall>e\<in>set es. snd e < length h' \<and> length h' - snd e \<le> k"
    using "4.prems"(2) sg by (simp add: same_graph_def)
  from "4.IH"(2)[OF d refl wf' this] d show ?case by simp
qed

lemma grad_sim:
  "sim n off h h' \<Longrightarrow> wf_store h \<Longrightarrow> i < length h
     \<Longrightarrow> sim_opt n off (grad k i h) (grad k (rename n off i) h')"
  "sim n off h h' \<Longrightarrow> wf_store h \<Longrightarrow> \<forall>e\<in>set es. snd e < length h
     \<Longrightarrow> sim_opt n off (sum_children k es acc h)
           (sum_children k (map (apsnd (rename n off)) es) acc h')"
proof (induction k i h and k es acc h arbitrary: h' and h' rule: grad_sum_children.induct)
  case (1 i h)
  then show ?case by (simp add: sim_opt_def)
next
  case (2 k i h)
  note g = sim_gradient[OF "2.prems"(1,3)] and c = sim_child[OF "2.prems"(1,3)]
  show ?case
  proof (cases "gradient (h ! i)")
    case (Some a)
    then show ?thesis using g "2.prems"(1) by (simp add: sim_opt_def)
  next
    case None
    have ch: "\<forall>e\<in>set (child (h ! i)). snd e < length h"
      using "2.prems" by (fastforce simp: wf_store_def)
    note ih = "2.IH"[OF None "2.prems"(1,2) ch]
    show ?thesis
    proof (cases "sum_children k (child (h ! i)) 0 h")
      case N: None
      with ih None g c show ?thesis by (simp add: sim_opt_def)
    next
      case (Some p)
      obtain s h1 where p: "p = (s, h1)" by (cases p)
      with Some ih obtain h1' where
        1: "sum_children k (map (apsnd (rename n off)) (child (h ! i))) 0 h' = Some (s, h1')"
        and 2: "sim n off h1 h1'"
        by (auto simp: sim_opt_def)
      from grad_same_graph(2) Some p have "same_graph h h1" by blast
      then have i1: "i < length h1" using "2.prems"(3) by (simp add: same_graph_def)
      from sim_set_gradient[OF 2 i1, of "Some s"] Some p 1 None g c
      show ?thesis by (simp add: sim_opt_def)
    qed
  qed
next
  case (3 k acc h)
  then show ?case by (simp add: sim_opt_def)
next
  case (4 k w c es acc h)
  from "4.prems" have c: "c < length h" by simp
  note ih1 = "4.IH"(1)[OF "4.prems"(1,2) c]
  show ?case
  proof (cases "grad k c h")
    case None
    with ih1 show ?thesis by (simp add: sim_opt_def)
  next
    case (Some p)
    obtain d h1 where p: "p = (d, h1)" by (cases p)
    with Some ih1 obtain h1' where
      1: "grad k (rename n off c) h' = Some (d, h1')" and 2: "sim n off h1 h1'"
      by (auto simp: sim_opt_def)
    from grad_same_graph(1) Some p have sg: "same_graph h h1" by blast
    then have wf1: "wf_store h1" using "4.prems"(2) by (rule same_graph_wf)
    have es: "\<forall>e\<in>set es. snd e < length h1"
      using "4.prems"(3) sg by (simp add: same_graph_def)
    from "4.IH"(2)[OF Some[unfolded p] refl 2 wf1 es] Some p 1
    show ?thesis by simp
  qed
qed

lemma extends_refl [simp]: "extends h h"
  by (simp add: extends_def)

lemma extends_trans: "extends h h1 \<Longrightarrow> extends h1 h2 \<Longrightarrow> extends h h2"
  by (auto simp: extends_def)

lemma same_graph_extends: "same_graph h h1 \<Longrightarrow> extends h h1"
  by (simp add: same_graph_def extends_def)

lemma extends_alloc: "extends h (h @ [nd])"
  by (simp add: extends_def nth_append)

lemma extends_add_child: "extends h (add_child i w z h)"
  by (cases "i < length h") (simp_all add: extends_def add_child_def nth_list_update list_update_beyond)

lemma wf_alloc: "wf_store h \<Longrightarrow> wf_store (h @ [\<lparr>real_rm = r, child = [], gradient = None\<rparr>])"
  by (auto simp: wf_store_def nth_append less_Suc_eq)

lemma wf_add_child:
  "wf_store h \<Longrightarrow> i < z \<Longrightarrow> z < length h \<Longrightarrow> wf_store (add_child i w z h)"
  unfolding wf_store_def add_child_def
  by (simp add: nth_list_update) (metis order_less_trans)

lemma rm_un_inv:
  assumes "wf_store h" "pred_val (\<lambda>i. i < length h) v" "rm_un u v h = Inr (w, h1)"
  shows "wf_store h1 \<and> extends h h1"
proof (cases v)
  case (Num a)
  with assms show ?thesis by (auto split: if_splits)
next
  case (Obj i)
  let ?nd = "\<lparr>real_rm = un_val u (real_rm (h ! i)), child = [], gradient = None\<rparr>"
  from Obj assms have i: "i < length h" by simp
  from Obj assms have h1: "h1 = add_child i (un_der u (real_rm (h ! i))) (length h) (h @ [?nd])"
    by (auto simp: ReverseMode_def Let_def split: if_splits)
  have "wf_store (h @ [?nd])" by (rule wf_alloc[OF assms(1)])
  then have "wf_store h1" unfolding h1 by (rule wf_add_child) (use i in auto)
  moreover have "extends h h1" unfolding h1
    by (rule extends_trans[OF extends_alloc extends_add_child])
  ultimately show ?thesis by blast
qed

lemma rm_bin_inv:
  assumes "wf_store h" "pred_val (\<lambda>i. i < length h) v" "pred_val (\<lambda>i. i < length h) w"
    "rm_bin b v w h = Inr (z, h1)"
  shows "wf_store h1 \<and> extends h h1"
proof -
  have wfa: "\<And>x. wf_store (h @ [\<lparr>real_rm = x, child = [], gradient = None\<rparr>])"
    by (rule wf_alloc[OF assms(1)])
  have one: "\<And>x i d. i < length h \<Longrightarrow>
     wf_store (add_child i d (length h) (h @ [\<lparr>real_rm = x, child = [], gradient = None\<rparr>]))"
    by (rule wf_add_child[OF wfa]) auto
  have two: "\<And>x i j d e. i < length h \<Longrightarrow> j < length h \<Longrightarrow>
     wf_store (add_child j e (length h)
       (add_child i d (length h) (h @ [\<lparr>real_rm = x, child = [], gradient = None\<rparr>])))"
    by (rule wf_add_child[OF one]) (auto simp: add_child_def)
  have e1: "\<And>x i d. extends h (add_child i d (length h) (h @ [x]))"
    by (rule extends_trans[OF extends_alloc extends_add_child])
  have e2: "\<And>x i j d e. extends h (add_child j e (length h) (add_child i d (length h) (h @ [x])))"
    by (rule extends_trans[OF e1 extends_add_child])
  show ?thesis
  proof (cases v)
    case (Num a)
    note vn = this
    show ?thesis
    proof (cases w)
      case (Num c)
      with vn assms show ?thesis by (auto split: if_splits)
    next
      case (Obj j)
      with vn assms one[of j] e1[of j] show ?thesis
        by (auto simp: ReverseMode_def Let_def split: if_splits)
    qed
  next
    case (Obj i)
    note vo = this
    show ?thesis
    proof (cases w)
      case (Num c)
      with vo assms one[of i] e1[of i] show ?thesis
        by (auto simp: ReverseMode_def Let_def split: if_splits)
    next
      case (Obj j)
      with vo assms two[of i j] e2[of j _ i] show ?thesis
        by (auto simp: ReverseMode_def Let_def split: if_splits)
    qed
  qed
qed

lemma sim_refl: "sim 0 0 h h"
  by (simp add: sim_def rename_def rename_node_def apsnd_def map_prod_def case_prod_unfold)

lemma rename_0_0 [simp]: "rename 0 0 = id"
  by (auto simp: rename_def)

lemma reval_in_store:
  assumes "pred_arg (\<lambda>i. i < length h) a" "reval e a h = Inr (v, h1)"
  shows "pred_val (\<lambda>i. i < length h1) v"
  using reval_sim[OF sim_refl assms(1), of e] assms(2)
  by (auto simp: sim_res_def)

lemma pred_val_mono: "pred_val (\<lambda>i. i < m) v \<Longrightarrow> m \<le> m' \<Longrightarrow> pred_val (\<lambda>i. i < (m'::nat)) v"
  by (cases v) auto

lemma pred_arg_mono: "pred_arg (\<lambda>i. i < m) a \<Longrightarrow> m \<le> m' \<Longrightarrow> pred_arg (\<lambda>i. i < (m'::nat)) a"
  by (cases a) (auto simp: list_all_iff)

lemma reval_inv:
  assumes "wf_store h" "pred_arg (\<lambda>i. i < length h) a" "reval e a h = Inr (v, h1)"
  shows "wf_store h1 \<and> extends h h1"
  using assms
proof (induction e arbitrary: h v h1)
  case X
  then show ?case by (cases a) auto
next
  case (Xi i)
  then show ?case by (cases a) (auto split: if_splits)
next
  case (Const c)
  then show ?case by simp
next
  case (UnOp u e)
  from UnOp.prems(3) obtain w h2 where
    1: "reval e a h = Inr (w, h2)" and 2: "rm_un u w h2 = Inr (v, h1)"
    by (auto split: sum.splits)
  from UnOp.IH[OF UnOp.prems(1,2) 1] have 3: "wf_store h2" "extends h h2" by auto
  from reval_in_store[OF UnOp.prems(2) 1] have 4: "pred_val (\<lambda>i. i < length h2) w" .
  from rm_un_inv[OF 3(1) 4 2] 3(2) show ?case by (blast intro: extends_trans)
next
  case (BinOp b e1 e2)
  from BinOp.prems(3) obtain v1 h2 v2 h3 where
    1: "reval e1 a h = Inr (v1, h2)" and 2: "reval e2 a h2 = Inr (v2, h3)"
    and 3: "rm_bin b v1 v2 h3 = Inr (v, h1)"
    by (auto split: sum.splits)
  from BinOp.IH(1)[OF BinOp.prems(1,2) 1] have 4: "wf_store h2" "extends h h2" by auto
  have a2: "pred_arg (\<lambda>i. i < length h2) a"
    using BinOp.prems(2) reval_length[OF 1] by (rule pred_arg_mono)
  from BinOp.IH(2)[OF 4(1) a2 2] have 5: "wf_store h3" "extends h2 h3" by auto
  have 6: "pred_val (\<lambda>i. i < length h3) v1"
    using reval_in_store[OF BinOp.prems(2) 1] reval_length[OF 2] by (rule pred_val_mono)
  from reval_in_store[OF a2 2] have 7: "pred_val (\<lambda>i. i < length h3) v2" .
  from rm_bin_inv[OF 5(1) 6 7 3] 4(2) 5(2) show ?case by (blast intro: extends_trans)
qed

lemma reval_not_OutOfFuel: "reval e a h \<noteq> Inl OutOfFuel"
proof (induction e arbitrary: h)
  case X then show ?case by (cases a) auto
next
  case (Xi i) then show ?case by (cases a) auto
next
  case (Const c) then show ?case by simp
next
  case (UnOp u e)
  have "\<And>v h. rm_un u v h \<noteq> Inl OutOfFuel"
    subgoal for v h by (cases v) (auto simp: Let_def split: prod.splits) done
  with UnOp show ?case by (auto split: sum.splits)
next
  case (BinOp b e1 e2)
  have "\<And>v w h. rm_bin b v w h \<noteq> Inl OutOfFuel"
    subgoal for v w h by (cases v; cases w) (auto simp: Let_def split: prod.splits) done
  with BinOp show ?case by (auto split: sum.splits)
qed

lemma grad_top_sim:
  assumes "sim n off h h'" "wf_store h" "i < length h"
  shows "\<exists>g h1 h1'. grad (length h) i h = Some (g, h1)
           \<and> grad (length h') (rename n off i) h' = Some (g, h1')
           \<and> sim n off h1 h1' \<and> same_graph h h1"
proof -
  from grad_enough_fuel(1)[OF assms(2,3), of "length h"] obtain g h1 where
    1: "grad (length h) i h = Some (g, h1)" by auto
  with grad_sim(1)[OF assms, of "length h"] obtain h1' where
    2: "grad (length h) (rename n off i) h' = Some (g, h1')" and 3: "sim n off h1 h1'"
    by (auto simp: sim_opt_def)
  have "length h \<le> length h'" using assms(1) by (simp add: sim_def)
  from grad_fuel_mono[OF this 2] 1 3 grad_same_graph(1)[OF 1] show ?thesis by blast
qed

lemma grad_all_sim:
  assumes "sim n off h h'" "wf_store h" "\<forall>t\<in>set ts. t < length h"
  shows "\<exists>ds h1 h1'. grad_all ts h = Some (ds, h1)
           \<and> grad_all (map (rename n off) ts) h' = Some (ds, h1')
           \<and> sim n off h1 h1' \<and> same_graph h h1 \<and> length ds = length ts"
  using assms
proof (induction ts arbitrary: h h')
  case Nil
  then show ?case by simp
next
  case (Cons t ts)
  from Cons.prems have t: "t < length h" by simp
  from grad_top_sim[OF Cons.prems(1,2) t] obtain g h1 h1' where
    1: "grad (length h) t h = Some (g, h1)"
    and 2: "grad (length h') (rename n off t) h' = Some (g, h1')"
    and 3: "sim n off h1 h1'" and 4: "same_graph h h1" by blast
  have wf1: "wf_store h1" using 4 Cons.prems(2) by (rule same_graph_wf)
  have ts1: "\<forall>t\<in>set ts. t < length h1" using Cons.prems(3) 4 by (simp add: same_graph_def)
  from Cons.IH[OF 3 wf1 ts1] obtain ds h2 h2' where
    5: "grad_all ts h1 = Some (ds, h2)"
    and 6: "grad_all (map (rename n off) ts) h1' = Some (ds, h2')"
    and 7: "sim n off h2 h2'" and 8: "same_graph h1 h2" and 9: "length ds = length ts"
    by blast
  from 1 2 5 6 7 9 same_graph_trans[OF 4 8] show ?case by simp
qed

lemma reset_length [simp]: "length (reset ts h) = length h"
  by (induction ts arbitrary: h) auto

lemma reset_sim:
  assumes "sim n off h h'" "\<forall>t\<in>set ts. t < length h"
  shows "sim n off (reset ts h) (reset (map (rename n off) ts) h')"
  using assms
proof (induction ts arbitrary: h h')
  case Nil
  then show ?case by simp
next
  case (Cons t ts)
  from Cons.prems have t: "t < length h" by simp
  have "sim n off (h[t := (h ! t)\<lparr>child := [], gradient := None\<rparr>])
          (h'[rename n off t := (h' ! rename n off t)\<lparr>child := [], gradient := None\<rparr>])"
    by (rule sim_update[OF Cons.prems(1) t])
       (simp add: sim_nth[OF Cons.prems(1) t] rename_node_def)
  from Cons.IH[OF this] Cons.prems(2) show ?case by simp
qed

lemma wf_clear: "wf_store h \<Longrightarrow> wf_store (h[t := (h ! t)\<lparr>child := [], gradient := None\<rparr>])"
proof (cases "t < length h")
  case True
  assume "wf_store h"
  with True show ?thesis
    unfolding wf_store_def by (simp add: nth_list_update)
next
  case False
  assume "wf_store h"
  with False show ?thesis by (simp add: list_update_beyond)
qed

lemma reset_wf: "wf_store h \<Longrightarrow> wf_store (reset ts h)"
  by (induction ts arbitrary: h) (auto intro: wf_clear)

lemma seed_root_sim:
  assumes "sim n off h h'" "pred_val (\<lambda>i. i < length h) z"
  shows "(seed_root z h = Inl AttributeError \<and> seed_root (map_val (rename n off) z) h' = Inl AttributeError)
       \<or> (\<exists>h1 h1'. seed_root z h = Inr h1 \<and> seed_root (map_val (rename n off) z) h' = Inr h1'
             \<and> sim n off h1 h1' \<and> same_graph h h1)"
proof (cases z)
  case (Num a)
  then show ?thesis by simp
next
  case (Obj i)
  with assms have "i < length h" by simp
  from sim_set_gradient[OF assms(1) this, of "Some 1"] same_graph_set_gradient[of h i "Some 1"] Obj
  show ?thesis by simp
qed

lemma reset_extends: "extends h (reset ts h)"
proof (induction ts arbitrary: h)
  case Nil
  then show ?case by simp
next
  case (Cons t ts)
  have "extends h (h[t := (h ! t)\<lparr>child := [], gradient := None\<rparr>])"
    by (cases "t < length h") (simp_all add: extends_def nth_list_update list_update_beyond)
  from extends_trans[OF this Cons.IH] show ?case by simp
qed

lemma pass_many_sim:
  assumes "sim n off h h'" "wf_store h" "\<forall>t\<in>set ts. t < length h"
  shows "sim_pass n off h (pass_many g ts h) (pass_many g (map (rename n off) ts) h')"
proof -
  have a: "pred_arg (\<lambda>i. i < length h) (Many ts)" using assms(3) by (simp add: list_all_iff)
  note rs = reval_sim[OF assms(1) a, of g]
  show ?thesis
  proof (cases "reval g (Many ts) h")
    case (Inl e)
    with rs reval_not_OutOfFuel[of g "Many ts" h] show ?thesis
      by (simp add: sim_res_def sim_pass_def pass_many_def)
  next
    case (Inr p)
    obtain z h1 where p: "p = (z, h1)" by (cases p)
    with Inr rs obtain h1' where
      1: "reval g (Many (map (rename n off) ts)) h' = Inr (map_val (rename n off) z, h1')"
      and 2: "sim n off h1 h1'" and 3: "pred_val (\<lambda>i. i < length h1) z"
      by (auto simp: sim_res_def)
    from reval_inv[OF assms(2) a Inr[unfolded p]] have wf1: "wf_store h1" and ex1: "extends h h1"
      by auto
    from seed_root_sim[OF 2 3] show ?thesis
    proof (elim disjE conjE exE)
      assume "seed_root z h1 = Inl AttributeError"
        "seed_root (map_val (rename n off) z) h1' = Inl AttributeError"
      with Inr p 1 show ?thesis by (simp add: sim_pass_def pass_many_def)
    next
      fix h2 h2'
      assume 4: "seed_root z h1 = Inr h2" "seed_root (map_val (rename n off) z) h1' = Inr h2'"
        and 5: "sim n off h2 h2'" and 6: "same_graph h1 h2"
      have wf2: "wf_store h2" using 6 wf1 by (rule same_graph_wf)
      have ts2: "\<forall>t\<in>set ts. t < length h2"
        using assms(3) ex1 6 by (auto simp: extends_def same_graph_def)
      from grad_all_sim[OF 5 wf2 ts2] obtain ds h3 h3' where
        7: "grad_all ts h2 = Some (ds, h3)"
        and 8: "grad_all (map (rename n off) ts) h2' = Some (ds, h3')"
        and 9: "sim n off h3 h3'" and 10: "same_graph h2 h3" by blast
      have wf3: "wf_store h3" using 10 wf2 by (rule same_graph_wf)
      have ts3: "\<forall>t\<in>set ts. t < length h3" using ts2 10 by (simp add: same_graph_def)
      have "extends h (reset ts h3)"
        using ex1 same_graph_extends[OF 6] same_graph_extends[OF 10] reset_extends[of h3 ts]
        by (blast intro: extends_trans)
      with reset_sim[OF 9 ts3] reset_wf[OF wf3, of ts] Inr p 1 4 7 8
      show ?thesis by (simp add: sim_pass_def pass_many_def)
    qed
  qed
qed

lemma pass_single_sim:
  assumes "sim n off h h'" "wf_store h"
  shows "sim_pass n off h (pass_single g v h) (pass_single g v h')"
proof -
  let ?nd = "\<lparr>real_rm = v, child = [], gradient = None\<rparr>"
  let ?h0 = "h @ [?nd]" and ?h0' = "h' @ [?nd]"
  have s0: "sim n off ?h0 ?h0'" by (rule sim_alloc(1)[OF assms(1)])
  have r: "rename n off (length h) = length h'" by (rule sim_alloc(2)[OF assms(1)])
  have wf0: "wf_store ?h0" by (rule wf_alloc[OF assms(2)])
  have ex0: "extends h ?h0" by (rule extends_alloc)
  have a: "pred_arg (\<lambda>i. i < length ?h0) (Single (length h))" by simp
  from reval_sim[OF s0 a, of g] r
  have rs: "sim_res n off (reval g (Single (length h)) ?h0) (reval g (Single (length h')) ?h0')"
    by simp
  show ?thesis
  proof (cases "reval g (Single (length h)) ?h0")
    case (Inl e)
    with rs reval_not_OutOfFuel[of g "Single (length h)" ?h0] show ?thesis
      by (simp add: sim_res_def sim_pass_def pass_single_def ReverseMode_def)
  next
    case (Inr p)
    obtain z h1 where p: "p = (z, h1)" by (cases p)
    with Inr rs obtain h1' where
      1: "reval g (Single (length h')) ?h0' = Inr (map_val (rename n off) z, h1')"
      and 2: "sim n off h1 h1'" and 3: "pred_val (\<lambda>i. i < length h1) z"
      by (auto simp: sim_res_def)
    from reval_inv[OF wf0 a Inr[unfolded p]] have wf1: "wf_store h1" and ex1: "extends ?h0 h1"
      by auto
    from seed_root_sim[OF 2 3] show ?thesis
    proof (elim disjE conjE exE)
      assume "seed_root z h1 = Inl AttributeError"
        "seed_root (map_val (rename n off) z) h1' = Inl AttributeError"
      with Inr p 1 show ?thesis by (simp add: sim_pass_def pass_single_def ReverseMode_def)
    next
      fix h2 h2'
      assume 4: "seed_root z h1 = Inr h2" "seed_root (map_val (rename n off) z) h1' = Inr h2'"
        and 5: "sim n off h2 h2'" and 6: "same_graph h1 h2"
      have wf2: "wf_store h2" using 6 wf1 by (rule same_graph_wf)
      have x2: "length h < length h2"
        using ex1 6 by (auto simp: extends_def same_graph_def)
      from grad_top_sim[OF 5 wf2 x2] r obtain d h3 h3' where
        7: "grad (length h2) (length h) h2 = Some (d, h3)"
        and 8: "grad (length h2') (length h') h2' = Some (d, h3')"
        and 9: "sim n off h3 h3'" and 10: "same_graph h2 h3" by auto
      have wf3: "wf_store h3" using 10 wf2 by (rule same_graph_wf)
      have "extends h h3"
        using ex0 ex1 same_graph_extends[OF 6] same_graph_extends[OF 10]
        by (blast intro: extends_trans)
      with 9 wf3 Inr p 1 4 7 8
      show ?thesis by (simp add: sim_pass_def pass_single_def ReverseMode_def)
    qed
  qed
qed

lemma trace_update_commute:
  "s\<lparr>rad_jacobian := j, rad_trace := ts\<rparr> = s\<lparr>rad_trace := ts, rad_jacobian := j\<rparr>"
  "s\<lparr>rad_jacobian_single := d, rad_trace := ts\<rparr> = s\<lparr>rad_trace := ts, rad_jacobian_single := d\<rparr>"
  by (cases s, simp)+

lemma rad_loop_many_sim:
  assumes "sim n off h h'" "wf_store h" "\<forall>t\<in>set (rad_trace s). t < length h"
  shows "sim_run n off (rad_loop_many gs s h)
           (rad_loop_many gs (s\<lparr>rad_trace := map (rename n off) (rad_trace s)\<rparr>) h')"
  using assms
proof (induction gs arbitrary: s h h')
  case Nil
  then show ?case by (simp add: sim_run_def)
next
  case (Cons g gs)
  note ps = pass_many_sim[OF Cons.prems, of g]
  show ?case
  proof (cases "pass_many g (rad_trace s) h")
    case (Inl e)
    with ps show ?thesis by (simp add: sim_pass_def sim_run_def)
  next
    case (Inr p)
    obtain ds h1 where p: "p = (ds, h1)" by (cases p)
    with Inr ps obtain h1' where
      1: "pass_many g (map (rename n off) (rad_trace s)) h' = Inr (ds, h1')"
      and 2: "sim n off h1 h1'" and 3: "wf_store h1" and 4: "extends h h1"
      by (auto simp: sim_pass_def)
    let ?s1 = "s\<lparr>rad_jacobian := rad_jacobian s @ [Row ds]\<rparr>"
    have 5: "\<forall>t\<in>set (rad_trace ?s1). t < length h1"
      using Cons.prems(3) 4 by (auto simp: extends_def)
    from Cons.IH[OF 2 3 5] Inr p 1 show ?thesis by (simp add: trace_update_commute)
  qed
qed

lemma rad_loop_one_sim:
  assumes "sim n off h h'" "wf_store h" "\<forall>t\<in>set (rad_trace s). t < length h"
  shows "sim_run n off (rad_loop_one gs v s h)
           (rad_loop_one gs v (s\<lparr>rad_trace := map (rename n off) (rad_trace s)\<rparr>) h')"
  using assms
proof (induction gs arbitrary: s h h')
  case Nil
  then show ?case by (simp add: sim_run_def)
next
  case (Cons g gs)
  note ps = pass_single_sim[OF Cons.prems(1,2), of g v]
  show ?case
  proof (cases "pass_single g v h")
    case (Inl e)
    with ps show ?thesis by (simp add: sim_pass_def sim_run_def)
  next
    case (Inr p)
    obtain d h1 where p: "p = (d, h1)" by (cases p)
    with Inr ps obtain h1' where
      1: "pass_single g v h' = Inr (d, h1')"
      and 2: "sim n off h1 h1'" and 3: "wf_store h1" and 4: "extends h h1"
      by (auto simp: sim_pass_def)
    let ?s1 = "s\<lparr>rad_jacobian := rad_jacobian s @ [Val d]\<rparr>"
    have 5: "\<forall>t\<in>set (rad_trace ?s1). t < length h1"
      using Cons.prems(3) 4 by (auto simp: extends_def)
    from Cons.IH[OF 2 3 5] Inr p 1 show ?thesis by (simp add: trace_update_commute)
  qed
qed

lemma seed_trace_sim:
  assumes "sim n off h h'" "wf_store h" "seed_trace vs h = (ts, h1)"
  shows "\<exists>h1'. seed_trace vs h' = (map (rename n off) ts, h1') \<and> sim n off h1 h1'
           \<and> wf_store h1 \<and> (\<forall>t\<in>set ts. t < length h1) \<and> length h \<le> length h1"
  using assms
proof (induction vs arbitrary: h h' ts h1)
  case Nil
  then show ?case by simp
next
  case (Cons v vs)
  let ?nd = "\<lparr>real_rm = v, child = [], gradient = None\<rparr>"
  obtain ts2 h2 where st: "seed_trace vs (h @ [?nd]) = (ts2, h2)" by (cases "seed_trace vs (h @ [?nd])")
  with Cons.prems(3) have ts: "ts = length h # ts2" and h1: "h1 = h2"
    by (auto simp: ReverseMode_def)
  have s0: "sim n off (h @ [?nd]) (h' @ [?nd])" by (rule sim_alloc(1)[OF Cons.prems(1)])
  have r: "rename n off (length h) = length h'" by (rule sim_alloc(2)[OF Cons.prems(1)])
  have wf0: "wf_store (h @ [?nd])" by (rule wf_alloc[OF Cons.prems(2)])
  from Cons.IH[OF s0 wf0 st] obtain h2' where
    1: "seed_trace vs (h' @ [?nd]) = (map (rename n off) ts2, h2')"
    and 2: "sim n off h2 h2'" "wf_store h2" "\<forall>t\<in>set ts2. t < length h2"
       "length (h @ [?nd]) \<le> length h2" by blast
  from 1 2 ts h1 r show ?case by (auto simp: ReverseMode_def)
qed

lemma rad_compute_sim:
  assumes "sim n off h h'" "wf_store h" "\<forall>t\<in>set (rad_trace s). t < length h"
  shows "sim_run n off (rad_compute s h)
           (rad_compute (s\<lparr>rad_trace := map (rename n off) (rad_trace s)\<rparr>) h')"
proof (cases "rad_var_list s")
  case (Number v)
  show ?thesis
  proof (cases "rad_f s")
    case (Callable g)
    with Number show ?thesis by (simp add: rad_compute_def sim_run_def)
  next
    case (Functions gs)
    show ?thesis
    proof (cases "length gs = 1")
      case False
      with Number Functions show ?thesis by (simp add: rad_compute_def sim_run_def)
    next
      case True
      note ps = pass_single_sim[OF assms(1,2), of "gs ! 0" v]
      show ?thesis
      proof (cases "pass_single (gs ! 0) v h")
        case (Inl e)
        with ps Number Functions True show ?thesis
          by (simp add: sim_pass_def sim_run_def rad_compute_def)
      next
        case (Inr p)
        obtain d h1 where p: "p = (d, h1)" by (cases p)
        with Inr ps obtain h1' where
          1: "pass_single (gs ! 0) v h' = Inr (d, h1')"
          and 2: "sim n off h1 h1'" "wf_store h1" "extends h h1"
          by (auto simp: sim_pass_def)
        have "\<forall>t\<in>set (rad_trace s). t < length h1"
          using assms(3) 2(3) by (auto simp: extends_def)
        with 1 2 Inr p Number Functions True show ?thesis
          by (simp add: sim_run_def rad_compute_def trace_update_commute)
      qed
    qed
  qed
next
  case (Sequence vs)
  show ?thesis
  proof (cases "rad_f s")
    case (Callable g)
    with Sequence show ?thesis by (simp add: rad_compute_def sim_run_def)
  next
    case (Functions gs)
    consider "rad_len_var_list s = 1" | "1 < rad_len_var_list s" | "rad_len_var_list s = 0"
      by linarith
    then show ?thesis
    proof cases
      case 1
      with Sequence Functions rad_loop_one_sim[OF assms, of gs "vs ! 0"]
      show ?thesis by (simp add: rad_compute_def)
    next
      case 2
      with Sequence Functions rad_loop_many_sim[OF assms, of gs]
      show ?thesis by (simp add: rad_compute_def)
    next
      case 3
      with Sequence Functions show ?thesis by (simp add: rad_compute_def sim_run_def)
    qed
  qed
qed

lemma ReverseAD_init_sim:
  assumes "sim n off h h'" "wf_store h"
  shows "sim_run n off (ReverseAD_init f var_list h) (ReverseAD_init f var_list h')"
proof (cases var_list)
  case (Number v)
  let ?s = "\<lparr>rad_f = f, rad_var_list = var_list, rad_jacobian = [],
            rad_jacobian_single = 0, rad_len_var_list = 1, rad_trace = []\<rparr>"
  from rad_compute_sim[OF assms, of ?s] Number show ?thesis
    by (simp add: ReverseAD_init_def)
next
  case (Sequence vs)
  show ?thesis
  proof (cases "1 < length vs")
    case False
    let ?s = "\<lparr>rad_f = f, rad_var_list = var_list, rad_jacobian = [],
            rad_jacobian_single = 0, rad_len_var_list = length vs, rad_trace = []\<rparr>"
    from rad_compute_sim[OF assms, of ?s] Sequence False show ?thesis
      by (simp add: ReverseAD_init_def)
  next
    case True
    obtain ts h1 where st: "seed_trace vs h = (ts, h1)" by (cases "seed_trace vs h")
    from seed_trace_sim[OF assms st] obtain h1' where
      1: "seed_trace vs h' = (map (rename n off) ts, h1')" and 2: "sim n off h1 h1'"
      and 3: "wf_store h1" and 4: "\<forall>t\<in>set ts. t < length h1" by blast
    let ?s = "\<lparr>rad_f = f, rad_var_list = var_list, rad_jacobian = [],
            rad_jacobian_single = 0, rad_len_var_list = length vs, rad_trace = ts\<rparr>"
    from rad_compute_sim[OF 2 3, of ?s] 4 Sequence True st 1 show ?thesis
      by (simp add: ReverseAD_init_def)
  qed
qed

lemma sim_empty: "sim 0 (length h) [] h"
  by (simp add: sim_def)

lemma wf_empty: "wf_store []"
  by (simp add: wf_store_def)

lemma rad_get_jacobian_trace:
  "fst (rad_get_jacobian (s\<lparr>rad_trace := ts\<rparr>)) = fst (rad_get_jacobian s)"
  by (simp add: rad_get_jacobian_def Let_def split: var_arg.splits)

lemma ReverseAD_jacobian_store: "ReverseAD_jacobian f var_list h = ReverseAD_jacobian f var_list []"
  using ReverseAD_init_sim[OF sim_empty wf_empty, of h f var_list]
  by (auto simp: sim_run_def ReverseAD_jacobian_def rad_get_jacobian_trace split: sum.splits)

lemma flatten_map_Val [simp]: "flatten (map Val rs) = rs"
  by (induction rs) auto

lemma rad_get_jacobian_twice:
  "fst (rad_get_jacobian (snd (rad_get_jacobian s))) = fst (rad_get_jacobian s)"
  "snd (rad_get_jacobian (snd (rad_get_jacobian s))) = snd (rad_get_jacobian s)"
  by (simp_all add: rad_get_jacobian_def Let_def split: var_arg.splits)

lemma seed_trace_eq:
  "seed_trace vs h = ([length h ..< length h + length vs], h @ rad_store vs)"
proof (induction vs arbitrary: h)
  case Nil
  then show ?case by (simp add: rad_store_def)
next
  case (Cons v vs)
  let ?h = "h @ [\<lparr>real_rm = v, child = [], gradient = None\<rparr>]"
  have 1: "seed_trace (v # vs) h = (length h # fst (seed_trace vs ?h), snd (seed_trace vs ?h))"
    by (simp add: ReverseMode_def split: prod.splits)
  have 2: "seed_trace vs ?h = ([length ?h ..< length ?h + length vs], ?h @ rad_store vs)"
    by (rule Cons)
  have "length h < length h + Suc (length vs)" by simp
  from upt_conv_Cons[OF this]
  have 3: "[length h ..< length h + length (v # vs)]
      = length h # [length ?h ..< length ?h + length vs]"
    by (simp del: upt_Suc)
  show ?case unfolding 1 2 3 by (simp add: rad_store_def del: upt_Suc)
qed

lemma wf_rad_store: "wf_store (rad_store vs)"
  by (simp add: wf_store_def rad_store_def)

lemma clean_sim:
  assumes "length vs \<le> length h" "take (length vs) h = rad_store vs"
  shows "sim (length vs) (length h - length vs) (rad_store vs) h"
  unfolding sim_def
proof (intro conjI allI impI)
  show "length h = length (rad_store vs) + (length h - length vs)"
    using assms(1) by (simp add: rad_store_def)
  show "length vs \<le> length (rad_store vs)" by (simp add: rad_store_def)
  fix i assume "i < length (rad_store vs)"
  then have i: "i < length vs" by (simp add: rad_store_def)
  then have "h ! i = take (length vs) h ! i" by simp
  also have "\<dots> = rad_store vs ! i" by (simp add: assms(2))
  finally show "h ! rename (length vs) (length h - length vs) i
      = rename_node (length vs) (length h - length vs) (rad_store vs ! i)"
    using i by (simp add: rename_def rename_node_def rad_store_def)
qed

lemma rename_upt: "map (rename n off) [0 ..< n] = [0 ..< n]"
  by (rule nth_equalityI) (simp_all add: rename_def)

lemma reset_nth:
  "t < length h \<Longrightarrow>
   reset ts h ! t = (if t \<in> set ts then (h ! t)\<lparr>child := [], gradient := None\<rparr> else h ! t)"
proof (induction ts arbitrary: h)
  case Nil
  then show ?case by simp
next
  case (Cons a ts)
  let ?h = "h[a := (h ! a)\<lparr>child := [], gradient := None\<rparr>]"
  from Cons.prems have "t < length ?h" by simp
  from Cons.IH[OF this] Cons.prems show ?case
    by (cases "a = t") (auto simp: nth_list_update)
qed

lemma grad_all_same_graph:
  "grad_all ts h = Some (ds, h1) \<Longrightarrow> same_graph h h1 \<and> length ds = length ts"
proof (induction ts arbitrary: h ds h1)
  case Nil
  then show ?case by simp
next
  case (Cons t ts)
  from Cons.prems obtain g h2 gs where
    1: "grad (length h) t h = Some (g, h2)" and 2: "grad_all ts h2 = Some (gs, h1)"
    and 3: "ds = g # gs"
    by (auto split: option.splits)
  from grad_same_graph(1)[OF 1] Cons.IH[OF 2] 3 show ?case
    by (auto intro: same_graph_trans)
qed

lemma pass_many_reset:
  assumes "pass_many g ts h = Inr (ds, h1)"
  shows "\<exists>h3. h1 = reset ts h3 \<and> length ds = length ts"
proof -
  from assms obtain h2' h3 where
    "grad_all ts h2' = Some (ds, h3)" "h1 = reset ts h3"
    by (auto simp: pass_many_def split: sum.splits option.splits)
  with grad_all_same_graph[of ts h2' ds h3] show ?thesis by blast
qed

lemma pass_many_cleared:
  assumes "pass_many g ts h = Inr (ds, h1)" "t \<in> set ts" "t < length h1"
  shows "child (h1 ! t) = [] \<and> gradient (h1 ! t) = None"
proof -
  from pass_many_reset[OF assms(1)] obtain h3 where h1: "h1 = reset ts h3" by blast
  with assms(3) have "t < length h3" by simp
  from reset_nth[OF this, of ts] assms(2) h1 show ?thesis by simp
qed

lemma pass_many_alone:
  assumes "length vs \<le> length h" "take (length vs) h = rad_store vs" "wf_store h"
    "pass_many g [0 ..< length vs] h = Inr (ds, h1)"
  shows "(\<exists>h2. pass_many g [0 ..< length vs] (rad_store vs) = Inr (ds, h2))
         \<and> length ds = length vs
         \<and> length vs \<le> length h1 \<and> take (length vs) h1 = rad_store vs \<and> wf_store h1"
proof -
  let ?n = "length vs" and ?ts = "[0 ..< length vs]"
  have ts: "\<forall>t\<in>set ?ts. t < length (rad_store vs)" by (simp add: rad_store_def)
  from pass_many_sim[OF clean_sim[OF assms(1,2)] wf_rad_store ts, of g] assms(4)
  have alone: "\<exists>h2. pass_many g ?ts (rad_store vs) = Inr (ds, h2)"
    by (auto simp: sim_pass_def rename_upt split: sum.splits)
  have ts': "\<forall>t\<in>set ?ts. t < length h" using assms(1) by simp
  from pass_many_sim[OF sim_refl assms(3) ts', of g] assms(4)
  have wf1: "wf_store h1" and ex: "extends h h1"
    by (auto simp: sim_pass_def)
  from ex assms(1) have len: "?n \<le> length h1" by (simp add: extends_def)
  have "take ?n h1 = rad_store vs"
  proof (rule nth_equalityI)
    show "length (take ?n h1) = length (rad_store vs)" using len by (simp add: rad_store_def)
  next
    fix i assume "i < length (take ?n h1)"
    then have i: "i < ?n" by simp
    with len have i1: "i < length h1" by simp
    from pass_many_cleared[OF assms(4) _ i1] i
    have c: "child (h1 ! i) = []" "gradient (h1 ! i) = None" by simp_all
    from i assms(1) have "h ! i = take ?n h ! i" by simp
    then have "real_rm (h ! i) = vs ! i" using i by (simp add: assms(2) rad_store_def)
    with ex i assms(1) have "real_rm (h1 ! i) = vs ! i" by (simp add: extends_def)
    with c i show "take ?n h1 ! i = rad_store vs ! i"
      by (simp add: rad_store_def)
  qed
  with alone len wf1 pass_many_reset[OF assms(4)] show ?thesis by auto
qed

lemma rad_loop_many_rows:
  assumes "length vs \<le> length h" "take (length vs) h = rad_store vs" "wf_store h"
    "rad_trace s = [0 ..< length vs]" "rad_loop_many gs s h = Inr (s1, h1)"
  shows "\<exists>rows. rad_jacobian s1 = rad_jacobian s @ map Row rows \<and> length rows = length gs
           \<and> (\<forall>i<length gs. length (rows ! i) = length vs
                \<and> (\<exists>h2. pass_many (gs ! i) [0 ..< length vs] (rad_store vs) = Inr (rows ! i, h2)))
           \<and> length vs \<le> length h1 \<and> take (length vs) h1 = rad_store vs
           \<and> rad_trace s1 = rad_trace s"
  using assms
proof (induction gs arbitrary: s h)
  case Nil
  then show ?case by simp
next
  case (Cons g gs)
  from Cons.prems(5) Cons.prems(4) obtain ds h2 where
    1: "pass_many g [0 ..< length vs] h = Inr (ds, h2)"
    and 2: "rad_loop_many gs (s\<lparr>rad_jacobian := rad_jacobian s @ [Row ds]\<rparr>) h2 = Inr (s1, h1)"
    by (auto split: sum.splits)
  from pass_many_alone[OF Cons.prems(1,2,3) 1] obtain h3 where
    3: "pass_many g [0 ..< length vs] (rad_store vs) = Inr (ds, h3)" "length ds = length vs"
    and 4: "length vs \<le> length h2" "take (length vs) h2 = rad_store vs" "wf_store h2"
    by blast
  let ?s = "s\<lparr>rad_jacobian := rad_jacobian s @ [Row ds]\<rparr>"
  have tr: "rad_trace ?s = [0 ..< length vs]" using Cons.prems(4) by simp
  from Cons.IH[OF 4 tr 2] obtain rows where
    5: "rad_jacobian s1 = rad_jacobian ?s @ map Row rows" "length rows = length gs"
      "\<forall>i<length gs. length (rows ! i) = length vs
          \<and> (\<exists>h2. pass_many (gs ! i) [0 ..< length vs] (rad_store vs) = Inr (rows ! i, h2))"
      "length vs \<le> length h1" "take (length vs) h1 = rad_store vs" "rad_trace s1 = rad_trace ?s"
    by blast
  show ?case
  proof (intro exI[of _ "ds # rows"] conjI allI impI)
    fix i assume "i < length (g # gs)"
    then show "length ((ds # rows) ! i) = length vs"
      using 3 5(3) by (cases i) auto
    show "\<exists>h2. pass_many ((g # gs) ! i) [0 ..< length vs] (rad_store vs) = Inr ((ds # rows) ! i, h2)"
      using 3 5(3) \<open>i < length (g # gs)\<close> by (cases i) auto
  qed (use 5 in simp_all)
qed

lemma rad_loop_one_rows:
  assumes "wf_store h" "rad_loop_one gs v s h = Inr (s1, h1)"
  shows "\<exists>ds. rad_jacobian s1 = rad_jacobian s @ map Val ds \<and> length ds = length gs
           \<and> (\<forall>i<length gs. \<exists>h2. pass_single (gs ! i) v [] = Inr (ds ! i, h2))
           \<and> rad_trace s1 = rad_trace s"
  using assms
proof (induction gs arbitrary: s h)
  case Nil
  then show ?case by simp
next
  case (Cons g gs)
  from Cons.prems(2) obtain d h2 where
    1: "pass_single g v h = Inr (d, h2)"
    and 2: "rad_loop_one gs v (s\<lparr>rad_jacobian := rad_jacobian s @ [Val d]\<rparr>) h2 = Inr (s1, h1)"
    by (auto split: sum.splits)
  from pass_single_sim[OF sim_empty wf_empty, of h g v] 1
  have 3: "\<exists>h3. pass_single g v [] = Inr (d, h3)"
    by (auto simp: sim_pass_def split: sum.splits)
  from pass_single_sim[OF sim_refl Cons.prems(1), of g v] 1
  have 4: "wf_store h2" by (auto simp: sim_pass_def)
  let ?s = "s\<lparr>rad_jacobian := rad_jacobian s @ [Val d]\<rparr>"
  from Cons.IH[OF 4 2] obtain ds where
    5: "rad_jacobian s1 = rad_jacobian ?s @ map Val ds" "length ds = length gs"
      "\<forall>i<length gs. \<exists>h2. pass_single (gs ! i) v [] = Inr (ds ! i, h2)"
      "rad_trace s1 = rad_trace ?s"
    by blast
  show ?case
  proof (intro exI[of _ "d # ds"] conjI allI impI)
    fix i assume "i < length (g # gs)"
    then show "\<exists>h2. pass_single ((g # gs) ! i) v [] = Inr ((d # ds) ! i, h2)"
      using 3 5(3) by (cases i) auto
  qed (use 5 in simp_all)
qed

lemma flatten_map_Row [simp]: "flatten (map Row rows) = concat rows"
  by (induction rows) auto

lemma take_drop_concat:
  "\<forall>r\<in>set rows. length r = n \<Longrightarrow> i < length rows
     \<Longrightarrow> take n (drop (i * n) (concat rows)) = rows ! i"
proof (induction rows arbitrary: i)
  case Nil
  then show ?case by simp
next
  case (Cons r rows)
  then show ?case by (cases i) auto
qed

lemma ReverseAD_init_many:
  "1 < length vs \<Longrightarrow> ReverseAD_init (Functions gs) (Sequence vs) [] =
     rad_loop_many gs
       \<lparr>rad_f = Functions gs, rad_var_list = Sequence vs, rad_jacobian = [],
        rad_jacobian_single = 0, rad_len_var_list = length vs,
        rad_trace = [0 ..< length vs]\<rparr> (rad_store vs)"
  using seed_trace_eq[of vs "[]"] by (simp add: ReverseAD_init_def rad_compute_def Let_def)

lemma ReverseAD_init_one:
  "ReverseAD_init (Functions gs) (Sequence [v]) [] =
     rad_loop_one gs v
       \<lparr>rad_f = Functions gs, rad_var_list = Sequence [v], rad_jacobian = [],
        rad_jacobian_single = 0, rad_len_var_list = 1, rad_trace = []\<rparr> []"
  by (simp add: ReverseAD_init_def rad_compute_def)

lemma ReverseAD_jacobian_many_alone:
  "1 < length vs \<Longrightarrow> pass_many g [0 ..< length vs] (rad_store vs) = Inr (ds, h)
     \<Longrightarrow> ReverseAD_jacobian (Functions [g]) (Sequence vs) [] = Inr (Row ds)"
  by (simp add: ReverseAD_jacobian_def ReverseAD_init_many rad_get_jacobian_def)

lemma ReverseAD_jacobian_one_alone:
  "pass_single g v [] = Inr (d, h)
     \<Longrightarrow> ReverseAD_jacobian (Functions [g]) (Sequence [v]) [] = Inr (Row [d])"
  by (simp add: ReverseAD_jacobian_def ReverseAD_init_one rad_get_jacobian_def)

lemma ReverseAD_init_terminates: "ReverseAD_init f var_list h \<noteq> Inl OutOfFuel"
  using ReverseAD_init_sim[OF sim_empty wf_empty, of h f var_list]
  by (auto simp: sim_run_def split: sum.splits)

section \<open>No state across calls\<close>

text \<open>
  C4. An engine invoked on a function and a point yields the same result whatever
  earlier invocations have left behind. For the reverse engine the store \<open>h\<close> stands for
  everything earlier invocations allocated: \<^verbatim>\<open>ReverseAD(f, var_list).get_jacobian()\<close>
  returns on it what it returns on the empty store, and the bounded \<^verbatim>\<open>grad()\<close> of the
  model never runs out of steps. The forward engine has no store at all: its result is a
  function of its two arguments. Repeated calls of \<^verbatim>\<open>get_jacobian\<close> (and of the forward
  \<^verbatim>\<open>get_primal\<close>) on one instance return the same value and leave the same instance.
\<close>

theorem C4_no_state_across_calls:
  "ReverseAD_jacobian f var_list h = ReverseAD_jacobian f var_list []
   \<and> ReverseAD_init f var_list h \<noteq> Inl OutOfFuel
   \<and> rad_get_jacobian (snd (rad_get_jacobian s)) = rad_get_jacobian s
   \<and> ad_get_jacobian (snd (ad_get_jacobian a)) = ad_get_jacobian a
   \<and> ad_get_primal (snd (ad_get_primal a)) = ad_get_primal a"
proof -
  have "rad_get_jacobian (snd (rad_get_jacobian s)) = rad_get_jacobian s"
    by (rule prod_eqI) (simp_all add: rad_get_jacobian_twice)
  then show ?thesis
    using ReverseAD_jacobian_store[of f var_list h] ReverseAD_init_terminates[of f var_list h]
    by (simp add: ad_get_jacobian_def ad_get_primal_def)
qed

section \<open>Rows of the reverse Jacobian\<close>

text \<open>
  C5. Within one \<^verbatim>\<open>ReverseAD\<close> over the functions \<open>gs\<close> of the variables \<open>vs\<close>, row \<open>i\<close>
  of the Jacobian (entries \<open>i * n\<close> to \<open>i * n + n - 1\<close> of the flattened list, \<open>n\<close> the
  number of variables) is the Jacobian obtained by differentiating function \<open>i\<close> alone,
  and when the constructor returns every seed node of the trace has an empty edge list and
  an unset gradient. The same holds before each function's pass, a constructor on a prefix
  of \<open>gs\<close> being the same computation up to that pass.
\<close>

theorem C5_rows_independent:
  assumes "vs \<noteq> []" and "ReverseAD_init (Functions gs) (Sequence vs) [] = Inr (s, h)"
    and "i < length gs"
  shows "ReverseAD_jacobian (Functions [gs ! i]) (Sequence vs) []
           = Inr (Row (take (length vs) (drop (i * length vs) (flatten (rad_jacobian s)))))
         \<and> (\<forall>t\<in>set (rad_trace s). child (h ! t) = [] \<and> gradient (h ! t) = None)"
proof (cases "1 < length vs")
  case True
  let ?n = "length vs"
  let ?s0 = "\<lparr>rad_f = Functions gs, rad_var_list = Sequence vs, rad_jacobian = [],
        rad_jacobian_single = 0, rad_len_var_list = length vs,
        rad_trace = [0 ..< length vs]\<rparr>"
  from assms(2) True have run: "rad_loop_many gs ?s0 (rad_store vs) = Inr (s, h)"
    by (simp add: ReverseAD_init_many)
  have c: "length vs \<le> length (rad_store vs)" "take (length vs) (rad_store vs) = rad_store vs"
    by (simp_all add: rad_store_def)
  from rad_loop_many_rows[OF c wf_rad_store _ run] obtain rows where
    1: "rad_jacobian s = map Row rows" "length rows = length gs"
    and 2: "\<forall>i<length gs. length (rows ! i) = ?n
          \<and> (\<exists>h2. pass_many (gs ! i) [0 ..< ?n] (rad_store vs) = Inr (rows ! i, h2))"
    and 3: "?n \<le> length h" "take ?n h = rad_store vs" "rad_trace s = [0 ..< ?n]"
    by auto
  have "\<forall>r\<in>set rows. length r = ?n" using 1(2) 2 by (auto simp: in_set_conv_nth)
  from take_drop_concat[OF this, of i] assms(3) 1
  have row: "take ?n (drop (i * ?n) (flatten (rad_jacobian s))) = rows ! i" by simp
  from 2 assms(3) obtain h2 where
    "pass_many (gs ! i) [0 ..< ?n] (rad_store vs) = Inr (rows ! i, h2)" by blast
  from ReverseAD_jacobian_many_alone[OF True this] row
  have A: "ReverseAD_jacobian (Functions [gs ! i]) (Sequence vs) []
           = Inr (Row (take ?n (drop (i * ?n) (flatten (rad_jacobian s)))))" by simp
  have B: "\<forall>t\<in>set (rad_trace s). child (h ! t) = [] \<and> gradient (h ! t) = None"
  proof
    fix t assume "t \<in> set (rad_trace s)"
    with 3 have t: "t < ?n" by simp
    then have "h ! t = take ?n h ! t" by (simp only: nth_take)
    also have "\<dots> = rad_store vs ! t" by (simp only: 3(2))
    finally show "child (h ! t) = [] \<and> gradient (h ! t) = None"
      using t by (simp add: rad_store_def)
  qed
  from A B show ?thesis by blast
next
  case False
  with assms(1) obtain v where vs: "vs = [v]" by (cases vs) auto
  let ?s0 = "\<lparr>rad_f = Functions gs, rad_var_list = Sequence [v], rad_jacobian = [],
        rad_jacobian_single = 0, rad_len_var_list = 1, rad_trace = []\<rparr>"
  from assms(2) vs have run: "rad_loop_one gs v ?s0 [] = Inr (s, h)"
    by (simp add: ReverseAD_init_one)
  from rad_loop_one_rows[OF wf_empty run] obtain ds where
    1: "rad_jacobian s = map Val ds" "length ds = length gs"
    and 2: "\<forall>i<length gs. \<exists>h2. pass_single (gs ! i) v [] = Inr (ds ! i, h2)"
    and tr: "rad_trace s = []"
    by auto
  from 2 assms(3) obtain h2 where "pass_single (gs ! i) v [] = Inr (ds ! i, h2)" by blast
  from ReverseAD_jacobian_one_alone[OF this] 1 assms(3) vs tr
  show ?thesis by (simp add: Cons_nth_drop_Suc[symmetric])
qed

theorem C5_rows_independent_witness:
  "[1, 2 :: real] \<noteq> []
   \<and> (1 :: nat) < length [func1, func2]
   \<and> (\<exists>s h. ReverseAD_init (Functions [func1, func2]) (Sequence [1, 2]) [] = Inr (s, h)
         \<and> rad_jacobian s = [Row [0.625, - 6.875], Row [0, 2]]
         \<and> rad_trace s = [0, 1]
         \<and> child (h ! 0) = [] \<and> gradient (h ! 0) = None
         \<and> child (h ! 1) = [] \<and> gradient (h ! 1) = None)
   \<and> ReverseAD_jacobian (Functions [func2]) (Sequence [1, 2]) [] = Inr (Row [0, 2])"
proof -
  obtain s h where run: "ReverseAD_init (Functions [func1, func2]) (Sequence [1, 2]) [] = Inr (s, h)"
    by (simp add: reverse_unfold func1_def func2_def)
  then have jac: "rad_jacobian s = [Row [0.625, - 6.875], Row [0, 2]]"
    and tr: "rad_trace s = [0, 1]"
    by (auto simp: reverse_unfold func1_def func2_def)
  have ne: "[1, 2 :: real] \<noteq> []" and i: "(1 :: nat) < length [func1, func2]" by simp_all
  from C5_rows_independent[OF ne run i] jac tr
  have "ReverseAD_jacobian (Functions [func2]) (Sequence [1, 2]) [] = Inr (Row [0, 2])"
    and "child (h ! 0) = [] \<and> gradient (h ! 0) = None"
    and "child (h ! 1) = [] \<and> gradient (h ! 1) = None"
    by simp_all
  with run jac tr ne i show ?thesis by blast
qed

section \<open>Domain errors\<close>

text \<open>
  Claim C8 contrasts \<open>DomainError\<close> with NaN and Inf, values of floating-point arithmetic
  that the model over the real numbers does not have, and the operations it speaks of are
  those of the kernels, modelled from the spec. It is not stated as a theorem. The lemmas
  of this section record what the code of \<^verbatim>\<open>interface.py\<close> does with an exception of
  a user function: neither \<^verbatim>\<open>_compute\<close> catches anything, so the constructor fails
  with the first exception raised, and every entry of a Jacobian it returns is the
  tangent (or gradient) of an evaluation that raised nothing.
\<close>

lemma ad_compute_evaluates:
  assumes "ad_compute gs s = Inr s1" "g \<in> set gs"
  shows "\<exists>v. feval g (if ad_len_var_list s = 1 then Single (ad_trace s ! 0)
                       else Many (ad_trace s)) = Inr v"
  using assms
proof (induction gs arbitrary: s)
  case Nil
  then show ?case by simp
next
  case (Cons f gs)
  show ?case
  proof (cases "ad_len_var_list s = 1")
    case True
    with Cons.prems(1) obtain v d where
      1: "feval f (Single (ad_trace s ! 0)) = Inr v"
      and 2: "ad_compute gs (s\<lparr>ad_primal := ad_primal s @ [attr_real v],
                                 ad_jacobian := ad_jacobian s @ [Val d]\<rparr>) = Inr s1"
      by (auto split: sum.splits)
    show ?thesis
    proof (cases "g = f")
      case True
      with 1 \<open>ad_len_var_list s = 1\<close> show ?thesis by simp
    next
      case False
      with Cons.prems(2) have "g \<in> set gs" by simp
      from Cons.IH[OF 2 this] show ?thesis by (simp cong: if_cong)
    qed
  next
    case False
    with Cons.prems(1) obtain v tangent where
      1: "feval f (Many (ad_trace s)) = Inr v"
      and 2: "ad_compute gs (s\<lparr>ad_primal := ad_primal s @ [attr_real v],
                                 ad_jacobian := ad_jacobian s @ [Row tangent]\<rparr>) = Inr s1"
      by (auto split: sum.splits)
    show ?thesis
    proof (cases "g = f")
      case True
      with 1 \<open>ad_len_var_list s \<noteq> 1\<close> show ?thesis by simp
    next
      case False
      with Cons.prems(2) have "g \<in> set gs" by simp
      from Cons.IH[OF 2 this] show ?thesis by (simp cong: if_cong)
    qed
  qed
qed

lemma AutoDiff_init_evaluates:
  assumes "AutoDiff_init (Functions fs) (Sequence xs) = Inr a" "f \<in> set fs"
  shows "\<exists>v. feval f (ad_arg xs) = Inr v"
  using ad_compute_evaluates[OF assms[unfolded AutoDiff_init_def Let_def, simplified]]
  by (cases xs) (auto simp: ad_arg_def)

lemma AutoDiff_init_fails:
  assumes "feval g (ad_arg vs) = Inl err"
  shows "AutoDiff_init (Functions (g # gs)) (Sequence vs) = Inl err"
  using assms by (cases vs) (auto simp: AutoDiff_init_def ad_arg_def split: if_splits)

lemma rad_store_single: "rad_store [v] = [\<lparr>real_rm = v, child = [], gradient = None\<rparr>]"
  by (simp add: rad_store_def)

lemma pass_single_evaluates:
  "pass_single g v [] = Inr (d, h) \<Longrightarrow> \<exists>p. reval g (rad_arg [v]) (rad_store [v]) = Inr p"
  by (auto simp: pass_single_def ReverseMode_def rad_arg_def rad_store_def split: sum.splits)

lemma pass_many_evaluates:
  "pass_many g ts h0 = Inr (ds, h) \<Longrightarrow> \<exists>p. reval g (Many ts) h0 = Inr p"
  by (auto simp: pass_many_def split: sum.splits)

lemma ReverseAD_init_evaluates:
  assumes "ReverseAD_init (Functions fs) (Sequence ys) h = Inr r" "f \<in> set fs"
  shows "\<exists>p. reval f (rad_arg ys) (rad_store ys) = Inr p"
proof -
  from assms(2) obtain i where i: "i < length fs" "f = fs ! i"
    by (auto simp: in_set_conv_nth)
  from ReverseAD_init_sim[OF sim_empty wf_empty, of h "Functions fs" "Sequence ys"] assms(1)
  obtain s0 h0 where run: "ReverseAD_init (Functions fs) (Sequence ys) [] = Inr (s0, h0)"
    by (auto simp: sim_run_def split: sum.splits)
  have ne: "ys \<noteq> []"
    using run by (auto simp: ReverseAD_init_def rad_compute_def)
  show ?thesis
  proof (cases "1 < length ys")
    case True
    let ?s = "\<lparr>rad_f = Functions fs, rad_var_list = Sequence ys, rad_jacobian = [],
        rad_jacobian_single = 0, rad_len_var_list = length ys,
        rad_trace = [0 ..< length ys]\<rparr>"
    from run True have loop: "rad_loop_many fs ?s (rad_store ys) = Inr (s0, h0)"
      by (simp add: ReverseAD_init_many)
    have c: "length ys \<le> length (rad_store ys)" "take (length ys) (rad_store ys) = rad_store ys"
      by (simp_all add: rad_store_def)
    from rad_loop_many_rows[OF c wf_rad_store _ loop] i(1) obtain ds h2 where
      "pass_many (fs ! i) [0 ..< length ys] (rad_store ys) = Inr (ds, h2)"
      by auto
    from pass_many_evaluates[OF this] True i(2) show ?thesis by (simp add: rad_arg_def)
  next
    case False
    with ne obtain v where ys: "ys = [v]" by (cases ys) auto
    let ?s = "\<lparr>rad_f = Functions fs, rad_var_list = Sequence [v], rad_jacobian = [],
        rad_jacobian_single = 0, rad_len_var_list = 1, rad_trace = []\<rparr>"
    from run ys have loop: "rad_loop_one fs v ?s [] = Inr (s0, h0)"
      by (simp add: ReverseAD_init_one)
    from rad_loop_one_rows[OF wf_empty loop] i(1) obtain d h2 where
      "pass_single (fs ! i) v [] = Inr (d, h2)" by blast
    from pass_single_evaluates[OF this] ys i(2) show ?thesis by simp
  qed
qed

lemma ReverseAD_init_fails:
  assumes "ws \<noteq> []" "reval g (rad_arg ws) (rad_store ws) = Inl err"
  shows "ReverseAD_init (Functions (g # gs)) (Sequence ws) h = Inl err"
proof -
  have "ReverseAD_init (Functions (g # gs)) (Sequence ws) [] = Inl err"
  proof (cases "1 < length ws")
    case True
    with assms(2) show ?thesis
      by (simp add: ReverseAD_init_many pass_many_def rad_arg_def)
  next
    case False
    with assms(1) obtain v where ws: "ws = [v]" by (cases ws) auto
    with assms(2) show ?thesis
      by (simp add: ReverseAD_init_one pass_single_def ReverseMode_def rad_arg_def rad_store_def)
  qed
  with ReverseAD_init_sim[OF sim_empty wf_empty, of h "Functions (g # gs)" "Sequence ws"]
  show ?thesis by (simp add: sim_run_def)
qed

lemma un_ok_iff: "un_ok u a \<longleftrightarrow> \<not> (u = ULn \<and> a \<le> 0)"
  by (cases u) auto

lemma bin_ok_iff: "bin_ok b a c \<longleftrightarrow> \<not> (b = BDiv \<and> c = 0)"
  by (cases b) auto

lemma dn_un_domain:
  "dn_un u (Obj d) =
     (if un_ok u (real_dn d)
      then Inr (Obj (DualNumber (un_val u (real_dn d)) (un_der u (real_dn d) * dual_dn d)))
      else Inl DomainError)"
  by simp

lemma dn_bin_domain:
  assumes "\<not> bin_ok b (primal_of v) (primal_of w)"
  shows "dn_bin b v w = Inl (if (\<exists>a c. v = Num a \<and> w = Num c) then ZeroDivisionError else DomainError)"
  using assms by (cases v; cases w) auto

lemma rm_un_domain:
  "\<not> un_ok u (real_rm (h ! i)) \<Longrightarrow> rm_un u (Obj i) h = Inl DomainError"
  by simp

lemma rm_bin_domain:
  assumes "\<not> bin_ok b (case v of Num a \<Rightarrow> a | Obj i \<Rightarrow> real_rm (h ! i))
                       (case w of Num c \<Rightarrow> c | Obj j \<Rightarrow> real_rm (h ! j))"
  shows "rm_bin b v w h = Inl (if (\<exists>a c. v = Num a \<and> w = Num c) then ZeroDivisionError else DomainError)"
  using assms by (cases v; cases w) auto

lemma attr_dual_Inr: "attr_dual v = Inr dp \<longleftrightarrow> (\<exists>d. v = Obj d \<and> dp = dual_dn d)"
  by (cases v) auto

lemma tangent_loop_evaluates:
  assumes "tangent_loop g tr is = Inr tangent"
  shows "length tangent = length is
         \<and> (\<forall>j<length is. \<exists>d.
               feval g (Many ((replicate (length tr) (DualNumber 0 0))[is ! j := tr ! (is ! j)]))
                 = Inr (Obj d)
               \<and> tangent ! j = dual_dn d)"
  using assms
proof (induction "is" arbitrary: tangent)
  case Nil
  then show ?case by simp
next
  case (Cons i "is")
  from Cons.prems obtain d rest where
    1: "feval g (Many ((replicate (length tr) (DualNumber 0 0))[i := tr ! i])) = Inr (Obj d)"
    and 2: "tangent_loop g tr is = Inr rest" and 3: "tangent = dual_dn d # rest"
    by (auto split: sum.splits simp: attr_dual_Inr)
  from Cons.IH[OF 2] have 4: "length rest = length is"
    and 5: "\<forall>j<length is. \<exists>d.
               feval g (Many ((replicate (length tr) (DualNumber 0 0))[is ! j := tr ! (is ! j)]))
                 = Inr (Obj d)
               \<and> rest ! j = dual_dn d" by auto
  show ?case
  proof (intro conjI allI impI)
    show "length tangent = length (i # is)" using 3 4 by simp
    fix j assume "j < length (i # is)"
    then show "\<exists>d. feval g (Many ((replicate (length tr) (DualNumber 0 0))
                    [(i # is) ! j := tr ! ((i # is) ! j)])) = Inr (Obj d)
                  \<and> tangent ! j = dual_dn d"
      using 1 3 5 by (cases j) auto
  qed
qed

lemma tangent_loop_fails:
  assumes "\<forall>j\<in>set pre. \<exists>d.
             feval g (Many ((replicate (length tr) (DualNumber 0 0))[j := tr ! j])) = Inr (Obj d)"
    and "feval g (Many ((replicate (length tr) (DualNumber 0 0))[i := tr ! i])) = Inl err"
  shows "tangent_loop g tr (pre @ i # post) = Inl err"
  using assms by (induction pre) auto

lemma ad_compute_rows:
  assumes "ad_compute gs s = Inr s1" "ad_len_var_list s \<noteq> 1"
  shows "\<exists>rows. ad_jacobian s1 = ad_jacobian s @ map Row rows \<and> length rows = length gs
           \<and> (\<forall>k<length gs.
                 tangent_loop (gs ! k) (ad_trace s) [0 ..< ad_len_var_list s] = Inr (rows ! k))"
  using assms
proof (induction gs arbitrary: s)
  case Nil
  then show ?case by simp
next
  case (Cons g gs)
  from Cons.prems obtain v tangent where
    1: "tangent_loop g (ad_trace s) [0 ..< ad_len_var_list s] = Inr tangent"
    and 2: "ad_compute gs (s\<lparr>ad_primal := ad_primal s @ [attr_real v],
                               ad_jacobian := ad_jacobian s @ [Row tangent]\<rparr>) = Inr s1"
    by (auto split: sum.splits)
  let ?s = "s\<lparr>ad_primal := ad_primal s @ [attr_real v],
               ad_jacobian := ad_jacobian s @ [Row tangent]\<rparr>"
  have "ad_len_var_list ?s \<noteq> 1" using Cons.prems(2) by simp
  from Cons.IH[OF 2 this] obtain rows where
    3: "ad_jacobian s1 = ad_jacobian ?s @ map Row rows" "length rows = length gs"
      "\<forall>k<length gs. tangent_loop (gs ! k) (ad_trace s) [0 ..< ad_len_var_list s] = Inr (rows ! k)"
    by auto
  show ?case
  proof (intro exI[of _ "tangent # rows"] conjI allI impI)
    fix k assume "k < length (g # gs)"
    then show "tangent_loop ((g # gs) ! k) (ad_trace s) [0 ..< ad_len_var_list s]
                 = Inr ((tangent # rows) ! k)"
      using 1 3(3) by (cases k) auto
  qed (use 3 in simp_all)
qed

lemma ad_compute_vals:
  assumes "ad_compute gs s = Inr s1" "ad_len_var_list s = 1"
  shows "\<exists>ds. ad_jacobian s1 = ad_jacobian s @ map Val ds \<and> length ds = length gs
           \<and> (\<forall>k<length gs. \<exists>d.
                 feval (gs ! k) (Single (ad_trace s ! 0)) = Inr (Obj d) \<and> ds ! k = dual_dn d)"
  using assms
proof (induction gs arbitrary: s)
  case Nil
  then show ?case by simp
next
  case (Cons g gs)
  from Cons.prems obtain d where
    1: "feval g (Single (ad_trace s ! 0)) = Inr (Obj d)"
    and 2: "ad_compute gs (s\<lparr>ad_primal := ad_primal s @ [real_dn d],
                               ad_jacobian := ad_jacobian s @ [Val (dual_dn d)]\<rparr>) = Inr s1"
    by (auto split: sum.splits simp: attr_dual_Inr)
  let ?s = "s\<lparr>ad_primal := ad_primal s @ [real_dn d],
               ad_jacobian := ad_jacobian s @ [Val (dual_dn d)]\<rparr>"
  have "ad_len_var_list ?s = 1" using Cons.prems(2) by simp
  from Cons.IH[OF 2 this] obtain ds where
    3: "ad_jacobian s1 = ad_jacobian ?s @ map Val ds" "length ds = length gs"
      "\<forall>k<length gs. \<exists>d. feval (gs ! k) (Single (ad_trace s ! 0)) = Inr (Obj d)
                          \<and> ds ! k = dual_dn d"
    by auto
  show ?case
  proof (intro exI[of _ "dual_dn d # ds"] conjI allI impI)
    fix k assume "k < length (g # gs)"
    then show "\<exists>d'. feval ((g # gs) ! k) (Single (ad_trace s ! 0)) = Inr (Obj d')
                 \<and> (dual_dn d # ds) ! k = dual_dn d'"
      using 1 3(3) by (cases k) auto
  qed (use 3 in simp_all)
qed

lemma forward_jacobian_entries:
  assumes "AutoDiff_init (Functions fs) (Sequence xs) = Inr s" "length xs \<noteq> 1"
    "k < length fs" "i < length xs"
  shows "\<exists>row d. ad_jacobian s ! k = Row row \<and> length row = length xs
           \<and> feval (fs ! k) (one_hot xs i) = Inr (Obj d) \<and> row ! i = dual_dn d"
proof -
  let ?tr = "map (\<lambda>variable. DualNumber variable 1) xs"
  let ?s0 = "\<lparr>ad_f = fs, ad_var_list = xs, ad_len_var_list = length xs,
            ad_jacobian = [], ad_primal = [], ad_trace = ?tr\<rparr>"
  from assms(1) have run: "ad_compute fs ?s0 = Inr s" by (simp add: AutoDiff_init_def)
  from ad_compute_rows[OF run] assms(2) obtain rows where
    1: "ad_jacobian s = map Row rows" "length rows = length fs"
    and 2: "\<forall>k<length fs. tangent_loop (fs ! k) ?tr [0 ..< length xs] = Inr (rows ! k)"
    by auto
  from 2 assms(3) have "tangent_loop (fs ! k) ?tr [0 ..< length xs] = Inr (rows ! k)" by simp
  from tangent_loop_evaluates[OF this] assms(4) obtain d where
    "length (rows ! k) = length xs"
    "feval (fs ! k) (Many ((replicate (length xs) (DualNumber 0 0))[i := ?tr ! i])) = Inr (Obj d)"
    "rows ! k ! i = dual_dn d"
    by auto
  with 1 assms(3,4) show ?thesis by (auto simp: one_hot_def)
qed

lemma forward_jacobian_entries_one:
  assumes "AutoDiff_init (Functions fs) (Sequence [x]) = Inr s" "k < length fs"
  shows "\<exists>d. ad_jacobian s ! k = Val (dual_dn d)
           \<and> feval (fs ! k) (Single (DualNumber x 1)) = Inr (Obj d)"
proof -
  let ?s0 = "\<lparr>ad_f = fs, ad_var_list = [x], ad_len_var_list = 1,
            ad_jacobian = [], ad_primal = [], ad_trace = [DualNumber x 1]\<rparr>"
  from assms(1) have run: "ad_compute fs ?s0 = Inr s" by (simp add: AutoDiff_init_def)
  from ad_compute_vals[OF run] obtain ds where
    1: "ad_jacobian s = map Val ds" "length ds = length fs"
    and 2: "\<forall>k<length fs. \<exists>d. feval (fs ! k) (Single (DualNumber x 1)) = Inr (Obj d)
                            \<and> ds ! k = dual_dn d"
    by auto
  with assms(2) show ?thesis by auto
qed

lemma AutoDiff_init_fails_in_loop:
  assumes "length vs \<noteq> 1" "feval g (ad_arg vs) = Inr v" "i < length vs"
    and "\<forall>j<i. \<exists>d. feval g (one_hot vs j) = Inr (Obj d)"
    and "feval g (one_hot vs i) = Inl err"
  shows "AutoDiff_init (Functions (g # gs)) (Sequence vs) = Inl err"
proof -
  let ?tr = "map (\<lambda>variable. DualNumber variable 1) vs"
  have "[0 ..< i + (length vs - i)] = [0 ..< i] @ [i ..< i + (length vs - i)]"
    by (rule upt_add_eq_append) simp
  moreover have "[i ..< length vs] = i # [Suc i ..< length vs]"
    using assms(3) by (rule upt_conv_Cons)
  ultimately have split: "[0 ..< length vs] = [0 ..< i] @ i # [Suc i ..< length vs]"
    using assms(3) by simp
  have pre: "\<forall>j\<in>set [0 ..< i]. \<exists>d.
      feval g (Many ((replicate (length ?tr) (DualNumber 0 0))[j := ?tr ! j])) = Inr (Obj d)"
    using assms(3,4) by (auto simp: one_hot_def)
  have bad: "feval g (Many ((replicate (length ?tr) (DualNumber 0 0))[i := ?tr ! i])) = Inl err"
    using assms(3,5) by (simp add: one_hot_def)
  from tangent_loop_fails[OF pre bad, of "[Suc i ..< length vs]"] split
  have "tangent_loop g ?tr [0 ..< length vs] = Inl err" by simp
  with assms(1,2) show ?thesis by (simp add: AutoDiff_init_def ad_arg_def)
qed

lemma forward_quotient:
  "feval quotient (ad_arg [1, 2]) = Inr (Obj (DualNumber (1 / 2) (1 / 4)))"
  "AutoDiff_init (Functions [quotient]) (Sequence [1, 2]) = Inl DomainError"
  "ReverseAD_jacobian (Functions [quotient]) (Sequence [1, 2]) [] = Inr (Row [1 / 2, - (1 / 4)])"
proof -
  show "feval quotient (ad_arg [1, 2]) = Inr (Obj (DualNumber (1 / 2) (1 / 4)))"
    by (simp add: quotient_def ad_arg_def DualNumber_def)
  show "AutoDiff_init (Functions [quotient]) (Sequence [1, 2]) = Inl DomainError"
    by (simp add: forward_unfold quotient_def)
  show "ReverseAD_jacobian (Functions [quotient]) (Sequence [1, 2]) [] = Inr (Row [1 / 2, - (1 / 4)])"
    by (simp add: reverse_unfold quotient_def)
qed

lemma forward_reciprocal:
  "AutoDiff_init (Functions [reciprocal, func]) (Sequence [0]) = Inl DomainError"
  "ReverseAD_init (Functions [reciprocal, func]) (Sequence [0]) [] = Inl DomainError"
  by (simp_all add: forward_unfold reverse_unfold reciprocal_def)

end
